theory Spec2Isabelle
  imports Main "HOL-Library.Char_ord" "HOL-Library.List_Lexorder"
    "HOL-Library.Product_Lexorder" "HOL-Library.Sublist"
begin

section \<open>Paths, document keys and snapshot versions\<close>

text \<open>
  A resource path is an ordered sequence of string segments; a document key is the path
  of a document. Both the key comparator of the SDK and the key order of the object store
  compare paths segment by segment, a proper prefix being smaller: this is the
  lexicographic order on lists of strings.
\<close>

type_synonym segment = string
type_synonym ResourcePath = "segment list"
type_synonym DocumentKey = "segment list"

text \<open>
  Modelled from the spec: \<open>SnapshotVersion\<close> (src/core/snapshot_version) is a comparable
  logical version token with a distinguished minimum. It is a natural number here, the
  minimum being \<open>0\<close>; \<open>toDbTimestampKey\<close> and \<open>fromDbTimestampKey\<close> keep the order and are
  the identity in this model.
\<close>

type_synonym SnapshotVersion = nat

definition SnapshotVersion_min :: SnapshotVersion where
  "SnapshotVersion_min = 0"

definition popLast :: "ResourcePath \<Rightarrow> ResourcePath" where
  "popLast p = butlast p"

definition isPrefixOf :: "ResourcePath \<Rightarrow> ResourcePath \<Rightarrow> bool" where
  "isPrefixOf c p = prefix c p"

section \<open>Documents\<close>

text \<open>
  Modelled from the spec: \<open>MutableDocument\<close> (src/model/document) is a single record with
  an enumerated state, two mutation flags and a read time that defaults to the minimum
  version. A document is valid iff its state is not \<open>INVALID\<close>.
\<close>

datatype DocumentState = INVALID | FOUND_DOCUMENT | NO_DOCUMENT | UNKNOWN_DOCUMENT

datatype FieldValue =
    NullValue
  | BooleanValue bool
  | IntegerValue int
  | StringValue string
  | ArrayValue "FieldValue list"
  | MapValue "(string \<times> FieldValue) list"

record MutableDocument =
  key :: DocumentKey
  version :: SnapshotVersion
  data :: "(string \<times> FieldValue) list"
  documentState :: DocumentState
  hasLocalMutations :: bool
  hasCommittedMutations :: bool
  readTime :: SnapshotVersion

definition newInvalidDocument :: "DocumentKey \<Rightarrow> MutableDocument" where
  "newInvalidDocument documentKey =
     \<lparr>key = documentKey, version = SnapshotVersion_min, data = [],
      documentState = INVALID, hasLocalMutations = False,
      hasCommittedMutations = False, readTime = SnapshotVersion_min\<rparr>"

definition newNoDocument :: "DocumentKey \<Rightarrow> SnapshotVersion \<Rightarrow> MutableDocument" where
  "newNoDocument documentKey v =
     \<lparr>key = documentKey, version = v, data = [],
      documentState = NO_DOCUMENT, hasLocalMutations = False,
      hasCommittedMutations = False, readTime = SnapshotVersion_min\<rparr>"

definition newFoundDocument ::
  "DocumentKey \<Rightarrow> SnapshotVersion \<Rightarrow> (string \<times> FieldValue) list \<Rightarrow> MutableDocument" where
  "newFoundDocument documentKey v value =
     \<lparr>key = documentKey, version = v, data = value,
      documentState = FOUND_DOCUMENT, hasLocalMutations = False,
      hasCommittedMutations = False, readTime = SnapshotVersion_min\<rparr>"

definition isValidDocument :: "MutableDocument \<Rightarrow> bool" where
  "isValidDocument d = (documentState d \<noteq> INVALID)"

definition isNoDocument :: "MutableDocument \<Rightarrow> bool" where
  "isNoDocument d = (documentState d = NO_DOCUMENT)"

definition isFoundDocument :: "MutableDocument \<Rightarrow> bool" where
  "isFoundDocument d = (documentState d = FOUND_DOCUMENT)"

definition setReadTime :: "SnapshotVersion \<Rightarrow> MutableDocument \<Rightarrow> MutableDocument" where
  "setReadTime t d = d\<lparr>readTime := t\<rparr>"

text \<open>
  Modelled from the spec: a removal that is tracked leaves a no-document at the minimum
  version. \<open>convertToNoDocument\<close> turns a document into a no-document at the given
  version with empty data and no pending mutations; key and read time stay.
\<close>

definition convertToNoDocument :: "SnapshotVersion \<Rightarrow> MutableDocument \<Rightarrow> MutableDocument" where
  "convertToNoDocument v d =
     d\<lparr>version := v, data := [], documentState := NO_DOCUMENT,
       hasLocalMutations := False, hasCommittedMutations := False\<rparr>"

text \<open>
  The test of \<open>maybeDecodeDocument\<close> for a sentinel removal: a no-document at the minimum
  version.
\<close>

definition isSentinelRemoval :: "MutableDocument \<Rightarrow> bool" where
  "isSentinelRemoval doc = (isNoDocument doc \<and> version doc = SnapshotVersion_min)"

section \<open>Stored rows and the serializer\<close>

text \<open>
  A row of the remote document store. The code reads its \<open>readTime\<close> field (named
  \<open>dbReadTime\<close> here, since the document has a field of that name) and addresses the
  secondary indexes, which are keyed by the read time and by the pair of parent path and
  read time; rows that lack an indexed field are not in the index. The rest of the row
  is the encoded document, of which the cache knows nothing.
\<close>

record 'e DbRemoteDocument =
  encoded :: 'e
  dbReadTime :: "SnapshotVersion option"
  parentPath :: "ResourcePath option"

text \<open>
  The serializer (src/local/local_serializer) and the size estimator \<open>dbDocumentSize\<close>
  (src/local/indexeddb_mutation_batch_impl) are not part of the sources at hand: the
  cache takes them as a parameter, as the class takes its \<open>serializer\<close>.
\<close>

record 'e LocalSerializer =
  toDbRemoteDocument :: "MutableDocument \<Rightarrow> 'e DbRemoteDocument"
  fromDbRemoteDocument :: "'e DbRemoteDocument \<Rightarrow> MutableDocument"
  byteSize :: "'e DbRemoteDocument \<Rightarrow> nat"

text \<open>\<open>dbDocumentSize\<close> takes a row or null; the size of a missing row is zero.\<close>

definition dbDocumentSize ::
  "'e LocalSerializer \<Rightarrow> 'e DbRemoteDocument option \<Rightarrow> nat" where
  "dbDocumentSize S doc = (case doc of None \<Rightarrow> 0 | Some r \<Rightarrow> byteSize S r)"

section \<open>Ordered maps and the object store\<close>

text \<open>
  Modelled from the spec: the key-value store is a transactional ordered store with
  \<open>get\<close>, \<open>put\<close>, \<open>delete\<close> and ordered iteration. A store, and likewise a
  \<open>SortedMap\<close> keyed by document key, is an association list in ascending key order:
  \<open>sortedMapInsert\<close> replaces the value of a key that is present.
\<close>

fun sortedMapInsert :: "'k::linorder \<Rightarrow> 'v \<Rightarrow> ('k \<times> 'v) list \<Rightarrow> ('k \<times> 'v) list" where
  "sortedMapInsert k v [] = [(k, v)]"
| "sortedMapInsert k v ((k', v') # xs) =
     (if k < k' then (k, v) # (k', v') # xs
      else if k = k' then (k, v) # xs
      else (k', v') # sortedMapInsert k v xs)"

definition sortedMapRemove :: "'k \<Rightarrow> ('k \<times> 'v) list \<Rightarrow> ('k \<times> 'v) list" where
  "sortedMapRemove k xs = filter (\<lambda>p. fst p \<noteq> k) xs"

definition sortedMapGet :: "('k \<times> 'v) list \<Rightarrow> 'k \<Rightarrow> 'v option" where
  "sortedMapGet xs k = map_of xs k"

text \<open>
  The state a transaction works on: the remote document store, the single row of the
  global metadata store (the cumulative byte size; \<open>None\<close> when the row is missing) and
  the calls \<open>addToCollectionParentIndex\<close> received by the index manager, in order.
\<close>

record 'e PersistenceTransaction =
  remoteDocuments :: "(DocumentKey \<times> 'e DbRemoteDocument) list"
  remoteDocumentGlobal :: "int option"
  collectionParentIndex :: "ResourcePath list"

datatype error =
    CannotModifyUnread DocumentKey
  | ReadTimeZero
  | MissingMetadata
  | IteratorExhausted

section \<open>The remote document cache\<close>

definition addEntry ::
  "'e PersistenceTransaction \<Rightarrow> DocumentKey \<Rightarrow> 'e DbRemoteDocument \<Rightarrow> 'e PersistenceTransaction" where
  "addEntry transaction k doc =
     transaction\<lparr>remoteDocuments := sortedMapInsert k doc (remoteDocuments transaction)\<rparr>"

definition removeEntry ::
  "'e PersistenceTransaction \<Rightarrow> DocumentKey \<Rightarrow> 'e PersistenceTransaction" where
  "removeEntry transaction documentKey =
     transaction\<lparr>remoteDocuments := sortedMapRemove documentKey (remoteDocuments transaction)\<rparr>"

text \<open>\<open>getMetadata\<close> asserts that the metadata row exists (\<open>hardAssert\<close>).\<close>

definition getMetadata :: "'e PersistenceTransaction \<Rightarrow> error + int" where
  "getMetadata txn =
     (case remoteDocumentGlobal txn of None \<Rightarrow> Inl MissingMetadata | Some m \<Rightarrow> Inr m)"

definition setMetadata :: "'e PersistenceTransaction \<Rightarrow> int \<Rightarrow> 'e PersistenceTransaction" where
  "setMetadata txn metadata = txn\<lparr>remoteDocumentGlobal := Some metadata\<rparr>"

definition updateMetadata ::
  "'e PersistenceTransaction \<Rightarrow> int \<Rightarrow> error + 'e PersistenceTransaction" where
  "updateMetadata transaction sizeDelta =
     (case getMetadata transaction of
        Inl e \<Rightarrow> Inl e
      | Inr metadata \<Rightarrow> Inr (setMetadata transaction (metadata + sizeDelta)))"

definition getSize :: "'e PersistenceTransaction \<Rightarrow> error + int" where
  "getSize txn = getMetadata txn"

definition maybeDecodeDocument ::
  "'e LocalSerializer \<Rightarrow> DocumentKey \<Rightarrow> 'e DbRemoteDocument option \<Rightarrow> MutableDocument" where
  "maybeDecodeDocument S documentKey dbRemoteDoc =
     (case dbRemoteDoc of
        Some r \<Rightarrow>
          (let doc = fromDbRemoteDocument S r
           in if \<not> isSentinelRemoval doc then doc else newInvalidDocument documentKey)
      | None \<Rightarrow> newInvalidDocument documentKey)"

definition getEntry ::
  "'e LocalSerializer \<Rightarrow> 'e PersistenceTransaction \<Rightarrow> DocumentKey \<Rightarrow> MutableDocument" where
  "getEntry S transaction documentKey =
     maybeDecodeDocument S documentKey
       (sortedMapGet (remoteDocuments transaction) documentKey)"

definition getSizedEntry ::
  "'e LocalSerializer \<Rightarrow> 'e PersistenceTransaction \<Rightarrow> DocumentKey \<Rightarrow> MutableDocument \<times> nat" where
  "getSizedEntry S transaction documentKey =
     (let dbRemoteDoc = sortedMapGet (remoteDocuments transaction) documentKey
      in (maybeDecodeDocument S documentKey dbRemoteDoc, dbDocumentSize S dbRemoteDoc))"

text \<open>
  \<open>forEachDbEntry\<close> walks the rows of the store between the first and the last requested
  key and the requested keys (a sorted set, here an ascending list) side by side. The
  calls of its callback are collected in order: a key with its row, or with \<open>None\<close>
  (null) when the cache has no row for it.

  The first loop of the iteration callback reports the requested keys below the row at
  hand; it calls \<open>keyIter.getNext()\<close> without asking \<open>hasNext()\<close>, which fails on an
  exhausted iterator.
\<close>

fun skipNotFound ::
  "DocumentKey \<Rightarrow> DocumentKey \<Rightarrow> DocumentKey list \<Rightarrow> (DocumentKey \<times> 'r option) list
     \<Rightarrow> error + (DocumentKey \<times> DocumentKey list \<times> (DocumentKey \<times> 'r option) list)" where
  "skipNotFound potentialKey nextKey keyIter calls =
     (if nextKey < potentialKey then
        (case keyIter of
           [] \<Rightarrow> Inl IteratorExhausted
         | k # ks \<Rightarrow> skipNotFound potentialKey k ks (calls @ [(nextKey, None)]))
      else Inr (nextKey, keyIter, calls))"

text \<open>
  Modelled from the spec: iteration supports \<open>skipTo(key)\<close> and \<open>stop()\<close>. After
  \<open>control.skip(k)\<close> the iteration goes on at the first row whose key is not below \<open>k\<close>;
  after \<open>control.done()\<close> it ends. When the rows are exhausted the keys left over are
  reported as missing.
\<close>

function forEachDbEntry_iterate ::
  "(DocumentKey \<times> 'r) list \<Rightarrow> DocumentKey \<Rightarrow> DocumentKey list \<Rightarrow> (DocumentKey \<times> 'r option) list
     \<Rightarrow> error + (DocumentKey \<times> 'r option) list" where
  "forEachDbEntry_iterate [] nextKey keyIter calls =
     Inr (calls @ map (\<lambda>k. (k, None)) (nextKey # keyIter))"
| "forEachDbEntry_iterate ((potentialKey, dbRemoteDoc) # rows) nextKey keyIter calls =
     (case skipNotFound potentialKey nextKey keyIter calls of
        Inl e \<Rightarrow> Inl e
      | Inr (nextKey1, keyIter1, calls1) \<Rightarrow>
          if nextKey1 = potentialKey then
            (case keyIter1 of
               [] \<Rightarrow> Inr (calls1 @ [(nextKey1, Some dbRemoteDoc)])
             | k # ks \<Rightarrow>
                 forEachDbEntry_iterate (dropWhile (\<lambda>p. fst p < k) rows) k ks
                   (calls1 @ [(nextKey1, Some dbRemoteDoc)]))
          else
            forEachDbEntry_iterate (dropWhile (\<lambda>p. fst p < nextKey1) rows)
              nextKey1 keyIter1 calls1)"
  by pat_completeness auto
termination
  by (relation "measure (\<lambda>(rows, nextKey, keyIter, calls). length rows)")
     (auto simp: le_imp_less_Suc length_dropWhile_le)

definition forEachDbEntry ::
  "'e PersistenceTransaction \<Rightarrow> DocumentKey list
     \<Rightarrow> error + (DocumentKey \<times> 'e DbRemoteDocument option) list" where
  "forEachDbEntry transaction documentKeys =
     (case documentKeys of
        [] \<Rightarrow> Inr []
      | nextKey # keyIter \<Rightarrow>
          forEachDbEntry_iterate
            (filter (\<lambda>p. hd documentKeys \<le> fst p \<and> fst p \<le> last documentKeys)
               (remoteDocuments transaction))
            nextKey keyIter [])"

definition getEntries ::
  "'e LocalSerializer \<Rightarrow> 'e PersistenceTransaction \<Rightarrow> DocumentKey list
     \<Rightarrow> error + (DocumentKey \<times> MutableDocument) list" where
  "getEntries S transaction documentKeys =
     (case forEachDbEntry transaction documentKeys of
        Inl e \<Rightarrow> Inl e
      | Inr calls \<Rightarrow>
          Inr (fold (\<lambda>(k, dbRemoteDoc) results.
                       sortedMapInsert k (maybeDecodeDocument S k dbRemoteDoc) results)
                 calls []))"

definition getSizedEntries ::
  "'e LocalSerializer \<Rightarrow> 'e PersistenceTransaction \<Rightarrow> DocumentKey list
     \<Rightarrow> error + ((DocumentKey \<times> MutableDocument) list \<times> (DocumentKey \<times> nat) list)" where
  "getSizedEntries S transaction documentKeys =
     (case forEachDbEntry transaction documentKeys of
        Inl e \<Rightarrow> Inl e
      | Inr calls \<Rightarrow>
          Inr (fold (\<lambda>(k, dbRemoteDoc) (results, sizeMap).
                       (sortedMapInsert k (maybeDecodeDocument S k dbRemoteDoc) results,
                        sortedMapInsert k (dbDocumentSize S dbRemoteDoc) sizeMap))
                 calls ([], [])))"

text \<open>
  The callback of \<open>getAll\<close> over the rows in iteration order: a row whose key does not
  have the length of an immediate child is passed over (\<open>return\<close>); a document outside
  the collection ends the iteration (\<open>control.done()\<close>).
\<close>

fun getAll_iterate ::
  "'e LocalSerializer \<Rightarrow> ResourcePath \<Rightarrow> nat \<Rightarrow> (DocumentKey \<times> 'e DbRemoteDocument) list
     \<Rightarrow> (DocumentKey \<times> MutableDocument) list \<Rightarrow> (DocumentKey \<times> MutableDocument) list" where
  "getAll_iterate S collection immediateChildrenPathLength [] results = results"
| "getAll_iterate S collection immediateChildrenPathLength ((k, dbRemoteDoc) # rows) results =
     (if length k \<noteq> immediateChildrenPathLength
      then getAll_iterate S collection immediateChildrenPathLength rows results
      else
        (let document = maybeDecodeDocument S k (Some dbRemoteDoc)
         in if isPrefixOf collection (key document)
            then getAll_iterate S collection immediateChildrenPathLength rows
                   (sortedMapInsert (key document) document results)
            else results))"

text \<open>
  Modelled from the spec: iteration over a named secondary index visits the rows that
  have the indexed fields, in the order of the index key and then of the primary key.
  \<open>DbRemoteDocumentReadTimeIndex\<close> is keyed by the read time,
  \<open>DbRemoteDocumentCollectionReadTimeIndex\<close> by the parent path and the read time. An
  entry of an index carries its index key in front of the row.
\<close>

definition readTimeIndex ::
  "(DocumentKey \<times> 'e DbRemoteDocument) list
     \<Rightarrow> (SnapshotVersion \<times> DocumentKey \<times> 'e DbRemoteDocument) list" where
  "readTimeIndex rows =
     sort_key (\<lambda>(t, k, r). (t, k))
       (concat (map (\<lambda>(k, r). case dbReadTime r of None \<Rightarrow> [] | Some t \<Rightarrow> [(t, k, r)]) rows))"

definition collectionReadTimeIndex ::
  "(DocumentKey \<times> 'e DbRemoteDocument) list
     \<Rightarrow> ((ResourcePath \<times> SnapshotVersion) \<times> DocumentKey \<times> 'e DbRemoteDocument) list" where
  "collectionReadTimeIndex rows =
     sort_key (\<lambda>(i, k, r). (i, k))
       (concat (map (\<lambda>(k, r).
          case (parentPath r, dbReadTime r) of
            (Some p, Some t) \<Rightarrow> [((p, t), k, r)]
          | _ \<Rightarrow> []) rows))"

definition getAll ::
  "'e LocalSerializer \<Rightarrow> 'e PersistenceTransaction \<Rightarrow> ResourcePath \<Rightarrow> SnapshotVersion
     \<Rightarrow> (DocumentKey \<times> MutableDocument) list" where
  "getAll S transaction collection sinceReadTime =
     (let immediateChildrenPathLength = length collection + 1;
          rows =
            (if sinceReadTime = SnapshotVersion_min
             then filter (\<lambda>p. collection \<le> fst p) (remoteDocuments transaction)
             else map snd
                    (filter (\<lambda>e. (collection, sinceReadTime) < fst e)
                       (collectionReadTimeIndex (remoteDocuments transaction))))
      in getAll_iterate S collection immediateChildrenPathLength rows [])"

text \<open>
  \<open>remoteDocumentCacheGetNewDocumentChanges\<close> iterates the read-time index above the
  bound (an open lower bound), decodes each row as it is and remembers the read time of
  the row it saw last. The result is the pair of \<open>changedDocs\<close> and \<open>readTime\<close>.
\<close>

definition remoteDocumentCacheGetNewDocumentChanges ::
  "'e LocalSerializer \<Rightarrow> 'e PersistenceTransaction \<Rightarrow> SnapshotVersion
     \<Rightarrow> (DocumentKey \<times> MutableDocument) list \<times> SnapshotVersion" where
  "remoteDocumentCacheGetNewDocumentChanges S transaction sinceReadTime =
     fold (\<lambda>(t, _, dbRemoteDoc) (changedDocs, lastReadTime).
             (let doc = fromDbRemoteDocument S dbRemoteDoc
              in (sortedMapInsert (key doc) doc changedDocs, t)))
       (filter (\<lambda>e. sinceReadTime < fst e) (readTimeIndex (remoteDocuments transaction)))
       ([], sinceReadTime)"

text \<open>
  \<open>remoteDocumentCacheGetLastReadTime\<close> looks at the first row of the read-time index
  in reverse order.
\<close>

definition remoteDocumentCacheGetLastReadTime ::
  "'e PersistenceTransaction \<Rightarrow> SnapshotVersion" where
  "remoteDocumentCacheGetLastReadTime transaction =
     (case rev (readTimeIndex (remoteDocuments transaction)) of
        [] \<Rightarrow> SnapshotVersion_min
      | (t, _, _) # _ \<Rightarrow> t)"

section \<open>The change buffer\<close>

text \<open>
  Modelled from the spec: the base class \<open>RemoteDocumentChangeBuffer\<close>
  (src/local/remote_document_change_buffer) holds the staged changes, one per key, in
  the order in which the keys were first staged; staging a key again updates its entry.
  The buffer of the persistent cache adds the sizes recorded at read time and the
  track-removals mode.
\<close>

record RemoteDocumentChangeBuffer =
  changes :: "(DocumentKey \<times> MutableDocument) list"
  documentSizes :: "DocumentKey \<rightharpoonup> nat"
  trackRemovals :: bool

fun objectMapSet :: "'k \<Rightarrow> 'v \<Rightarrow> ('k \<times> 'v) list \<Rightarrow> ('k \<times> 'v) list" where
  "objectMapSet k v [] = [(k, v)]"
| "objectMapSet k v ((k', v') # xs) =
     (if k' = k then (k, v) # xs else (k', v') # objectMapSet k v xs)"

text \<open>\<open>newChangeBuffer(options?)\<close>: track-removals is \<open>!!options && options.trackRemovals\<close>.\<close>

definition newChangeBuffer :: "bool option \<Rightarrow> RemoteDocumentChangeBuffer" where
  "newChangeBuffer options =
     \<lparr>changes = [], documentSizes = Map.empty,
      trackRemovals = (case options of None \<Rightarrow> False | Some t \<Rightarrow> t)\<rparr>"

definition getFromCache ::
  "'e LocalSerializer \<Rightarrow> 'e PersistenceTransaction \<Rightarrow> RemoteDocumentChangeBuffer \<Rightarrow> DocumentKey
     \<Rightarrow> MutableDocument \<times> RemoteDocumentChangeBuffer" where
  "getFromCache S transaction buf documentKey =
     (let getResult = getSizedEntry S transaction documentKey
      in (fst getResult,
          buf\<lparr>documentSizes := (documentSizes buf)(documentKey \<mapsto> snd getResult)\<rparr>))"

definition getAllFromCache ::
  "'e LocalSerializer \<Rightarrow> 'e PersistenceTransaction \<Rightarrow> RemoteDocumentChangeBuffer
     \<Rightarrow> DocumentKey list
     \<Rightarrow> error + ((DocumentKey \<times> MutableDocument) list \<times> RemoteDocumentChangeBuffer)" where
  "getAllFromCache S transaction buf documentKeys =
     (case getSizedEntries S transaction documentKeys of
        Inl e \<Rightarrow> Inl e
      | Inr (documents, sizeMap) \<Rightarrow>
          Inr (documents,
               buf\<lparr>documentSizes :=
                     fold (\<lambda>(documentKey, size) m. m(documentKey \<mapsto> size)) sizeMap
                       (documentSizes buf)\<rparr>))"

text \<open>
  Modelled from the spec: \<open>getEntry\<close> of the buffer first checks the staged changes and
  on a miss delegates to the cache, which records the size; \<open>addEntry\<close> stages a
  document under its key; \<open>removeEntry\<close> stages an invalid document carrying the read
  time of the removal.
\<close>

definition bufferGetEntry ::
  "'e LocalSerializer \<Rightarrow> 'e PersistenceTransaction \<Rightarrow> RemoteDocumentChangeBuffer \<Rightarrow> DocumentKey
     \<Rightarrow> MutableDocument \<times> RemoteDocumentChangeBuffer" where
  "bufferGetEntry S transaction buf documentKey =
     (case map_of (changes buf) documentKey of
        Some bufferedEntry \<Rightarrow> (bufferedEntry, buf)
      | None \<Rightarrow> getFromCache S transaction buf documentKey)"

definition bufferAddEntry ::
  "RemoteDocumentChangeBuffer \<Rightarrow> MutableDocument \<Rightarrow> RemoteDocumentChangeBuffer" where
  "bufferAddEntry buf document =
     buf\<lparr>changes := objectMapSet (key document) document (changes buf)\<rparr>"

definition bufferRemoveEntry ::
  "RemoteDocumentChangeBuffer \<Rightarrow> DocumentKey \<Rightarrow> SnapshotVersion \<Rightarrow> RemoteDocumentChangeBuffer" where
  "bufferRemoveEntry buf k t =
     buf\<lparr>changes := objectMapSet k (setReadTime t (newInvalidDocument k)) (changes buf)\<rparr>"

text \<open>
  Modelled from the spec: the touched collection parents form a deduplicated set. In the
  code it is a \<open>SortedSet\<close> whose comparator compares the canonical strings of two
  paths. \<open>canonicalString\<close> (src/model/path) is a parameter; adding a path whose
  canonical string is present replaces the element.
\<close>

fun sortedSetAdd ::
  "(ResourcePath \<Rightarrow> string) \<Rightarrow> ResourcePath \<Rightarrow> ResourcePath list \<Rightarrow> ResourcePath list" where
  "sortedSetAdd cs p [] = [p]"
| "sortedSetAdd cs p (q # qs) =
     (if cs p < cs q then p # q # qs
      else if cs p = cs q then p # qs
      else q # sortedSetAdd cs p qs)"

text \<open>
  The body of \<open>this.changes.forEach\<close> in \<open>applyChanges\<close>, over the staged changes in
  iteration order, with the running \<open>sizeDelta\<close>, the set \<open>collectionParents\<close> and the
  transaction the writes go to. \<open>debugAssert\<close> is modelled as the development build has
  it: a failed assertion throws and the transaction is abandoned.
\<close>

fun applyChanges_forEach ::
  "(ResourcePath \<Rightarrow> string) \<Rightarrow> 'e LocalSerializer \<Rightarrow> RemoteDocumentChangeBuffer
     \<Rightarrow> (DocumentKey \<times> MutableDocument) list
     \<Rightarrow> int \<times> ResourcePath list \<times> 'e PersistenceTransaction
     \<Rightarrow> error + (int \<times> ResourcePath list \<times> 'e PersistenceTransaction)" where
  "applyChanges_forEach cs S buf [] st = Inr st"
| "applyChanges_forEach cs S buf ((k, documentChange) # rest)
     (sizeDelta, collectionParents, transaction) =
     (case documentSizes buf k of
        None \<Rightarrow> Inl (CannotModifyUnread k)
      | Some previousSize \<Rightarrow>
          if isValidDocument documentChange then
            if readTime documentChange = SnapshotVersion_min then Inl ReadTimeZero
            else
              (let doc = toDbRemoteDocument S documentChange;
                   size = dbDocumentSize S (Some doc)
               in applyChanges_forEach cs S buf rest
                    (sizeDelta + (int size - int previousSize),
                     sortedSetAdd cs (popLast k) collectionParents,
                     addEntry transaction k doc))
          else if trackRemovals buf then
            (let deletedDoc =
                   toDbRemoteDocument S (convertToNoDocument SnapshotVersion_min documentChange)
             in applyChanges_forEach cs S buf rest
                  (sizeDelta - int previousSize, collectionParents,
                   addEntry transaction k deletedDoc))
          else
            applyChanges_forEach cs S buf rest
              (sizeDelta - int previousSize, collectionParents,
               removeEntry transaction k))"

definition addToCollectionParentIndex ::
  "'e PersistenceTransaction \<Rightarrow> ResourcePath \<Rightarrow> 'e PersistenceTransaction" where
  "addToCollectionParentIndex transaction parent =
     transaction\<lparr>collectionParentIndex := collectionParentIndex transaction @ [parent]\<rparr>"

definition applyChanges ::
  "(ResourcePath \<Rightarrow> string) \<Rightarrow> 'e LocalSerializer \<Rightarrow> 'e PersistenceTransaction
     \<Rightarrow> RemoteDocumentChangeBuffer \<Rightarrow> error + 'e PersistenceTransaction" where
  "applyChanges cs S transaction buf =
     (case applyChanges_forEach cs S buf (changes buf) (0, [], transaction) of
        Inl e \<Rightarrow> Inl e
      | Inr (sizeDelta, collectionParents, txn) \<Rightarrow>
          updateMetadata (fold (\<lambda>parent t. addToCollectionParentIndex t parent)
                            collectionParents txn) sizeDelta)"

section \<open>Concrete inputs\<close>

text \<open>
  Modelled from the spec: the serializer encodes and decodes documents and comes with a
  byte-size estimator. The instance used at concrete inputs keeps the document itself as
  the encoded part of the row, fills in the indexed fields from the document (its read
  time and the parent of its key) and estimates the size of a row as one more than the
  number of top-level fields, so that every row, a tombstone too, has a positive size.
\<close>

definition identitySerializer :: "MutableDocument LocalSerializer" where
  "identitySerializer =
     \<lparr>toDbRemoteDocument =
        (\<lambda>d. \<lparr>encoded = d, dbReadTime = Some (readTime d),
              parentPath = Some (popLast (key d))\<rparr>),
      fromDbRemoteDocument = encoded,
      byteSize = (\<lambda>r. Suc (length (data (encoded r))))\<rparr>"

text \<open>The canonical string used at concrete inputs joins the segments with a slash.\<close>

fun canonicalString :: "ResourcePath \<Rightarrow> string" where
  "canonicalString [] = []"
| "canonicalString [s] = s"
| "canonicalString (s # t # ss) = s @ ''/'' @ canonicalString (t # ss)"

definition emptyTransaction :: "MutableDocument PersistenceTransaction" where
  "emptyTransaction =
     \<lparr>remoteDocuments = [], remoteDocumentGlobal = Some 0, collectionParentIndex = []\<rparr>"


definition tombstoneTransaction :: "MutableDocument PersistenceTransaction" where
  "tombstoneTransaction =
     \<lparr>remoteDocuments =
        [([''docs'', ''foo''],
          \<lparr>encoded = setReadTime 4 (newNoDocument [''docs'', ''foo''] SnapshotVersion_min),
           dbReadTime = Some 4, parentPath = Some [''docs'']\<rparr>)],
      remoteDocumentGlobal = Some 0, collectionParentIndex = []\<rparr>"

definition zeroReadTimeBuffer :: RemoteDocumentChangeBuffer where
  "zeroReadTimeBuffer =
     bufferAddEntry
       (snd (bufferGetEntry identitySerializer emptyTransaction (newChangeBuffer None)
               [''docs'', ''foo'']))
       (newFoundDocument [''docs'', ''foo''] 1 [(''bar'', IntegerValue 4)])"

section \<open>What a staged change writes\<close>


section \<open>Touched collection parents\<close>

text \<open>The parent paths of the staged valid documents, in staging order.\<close>

definition touchedParents :: "RemoteDocumentChangeBuffer \<Rightarrow> ResourcePath list" where
  "touchedParents buf =
     map (\<lambda>p. popLast (fst p)) (filter (\<lambda>p. isValidDocument (snd p)) (changes buf))"

text \<open>
  Reading a key through the buffer and then staging a document or a removal for it, as
  a caller of the buffer does.
\<close>

definition readAndAdd ::
  "'e LocalSerializer \<Rightarrow> 'e PersistenceTransaction \<Rightarrow> RemoteDocumentChangeBuffer
     \<Rightarrow> MutableDocument \<Rightarrow> RemoteDocumentChangeBuffer" where
  "readAndAdd S transaction buf document =
     bufferAddEntry (snd (bufferGetEntry S transaction buf (key document))) document"

definition readAndRemove ::
  "'e LocalSerializer \<Rightarrow> 'e PersistenceTransaction \<Rightarrow> RemoteDocumentChangeBuffer
     \<Rightarrow> DocumentKey \<Rightarrow> SnapshotVersion \<Rightarrow> RemoteDocumentChangeBuffer" where
  "readAndRemove S transaction buf k t =
     bufferRemoveEntry (snd (bufferGetEntry S transaction buf k)) k t"

definition docAt :: "DocumentKey \<Rightarrow> SnapshotVersion \<Rightarrow> MutableDocument" where
  "docAt k t = setReadTime t (newFoundDocument k 1 [])"

definition parentsBuffer :: RemoteDocumentChangeBuffer where
  "parentsBuffer =
     readAndAdd identitySerializer emptyTransaction
       (readAndAdd identitySerializer emptyTransaction
          (readAndAdd identitySerializer emptyTransaction (newChangeBuffer None)
             (docAt [''b'', ''2''] 1))
          (docAt [''a'', ''1''] 1))
       (docAt [''b'', ''1''] 1)"

definition parentsTransaction :: "MutableDocument PersistenceTransaction" where
  "parentsTransaction =
     \<lparr>remoteDocuments =
        [([''a'', ''1''], toDbRemoteDocument identitySerializer (docAt [''a'', ''1''] 1)),
         ([''b'', ''1''], toDbRemoteDocument identitySerializer (docAt [''b'', ''1''] 1)),
         ([''b'', ''2''], toDbRemoteDocument identitySerializer (docAt [''b'', ''2''] 1))],
      remoteDocumentGlobal = Some 3,
      collectionParentIndex = [ [''a''], [''b''] ]\<rparr>"

section \<open>Sequences of buffer operations\<close>

text \<open>
  Modelled from the spec: \<open>getEntries\<close> of the buffer first checks the staged changes
  and on a miss delegates to the cache: the keys that are not staged are loaded through
  \<open>getAllFromCache\<close>, which records their sizes, and the staged documents are put in
  their place in the result. The set of keys is a sorted set, here an ascending list.
\<close>

definition bufferGetEntries ::
  "'e LocalSerializer \<Rightarrow> 'e PersistenceTransaction \<Rightarrow> RemoteDocumentChangeBuffer
     \<Rightarrow> DocumentKey list
     \<Rightarrow> error + ((DocumentKey \<times> MutableDocument) list \<times> RemoteDocumentChangeBuffer)" where
  "bufferGetEntries S transaction buf documentKeys =
     (case getAllFromCache S transaction buf
             (filter (\<lambda>k. map_of (changes buf) k = None) documentKeys) of
        Inl e \<Rightarrow> Inl e
      | Inr (documents, buf') \<Rightarrow>
          Inr (fold (\<lambda>k results.
                       case map_of (changes buf) k of
                         None \<Rightarrow> results
                       | Some bufferedEntry \<Rightarrow> sortedMapInsert k bufferedEntry results)
                 documentKeys documents,
               buf'))"

datatype BufferOp =
    GetEntry DocumentKey
  | GetEntries "DocumentKey list"
  | AddEntry MutableDocument
  | RemoveEntry DocumentKey SnapshotVersion

fun bufferStep ::
  "'e LocalSerializer \<Rightarrow> 'e PersistenceTransaction \<Rightarrow> RemoteDocumentChangeBuffer \<Rightarrow> BufferOp
     \<Rightarrow> error + RemoteDocumentChangeBuffer" where
  "bufferStep S transaction buf (GetEntry k) = Inr (snd (bufferGetEntry S transaction buf k))"
| "bufferStep S transaction buf (GetEntries ks) =
     (case bufferGetEntries S transaction buf ks of
        Inl e \<Rightarrow> Inl e
      | Inr (documents, buf') \<Rightarrow> Inr buf')"
| "bufferStep S transaction buf (AddEntry document) = Inr (bufferAddEntry buf document)"
| "bufferStep S transaction buf (RemoveEntry k t) = Inr (bufferRemoveEntry buf k t)"

fun bufferRun ::
  "'e LocalSerializer \<Rightarrow> 'e PersistenceTransaction \<Rightarrow> RemoteDocumentChangeBuffer
     \<Rightarrow> BufferOp list \<Rightarrow> error + RemoteDocumentChangeBuffer" where
  "bufferRun S transaction buf [] = Inr buf"
| "bufferRun S transaction buf (x # ops) =
     (case bufferStep S transaction buf x of
        Inl e \<Rightarrow> Inl e
      | Inr buf' \<Rightarrow> bufferRun S transaction buf' ops)"

text \<open>
  \<open>readFirst R ops\<close>: every key staged by \<open>ops\<close> was read through the buffer before, by
  an earlier operation of \<open>ops\<close> or as one of the keys \<open>R\<close> read so far.
\<close>

fun readFirst :: "DocumentKey list \<Rightarrow> BufferOp list \<Rightarrow> bool" where
  "readFirst R [] = True"
| "readFirst R (GetEntry k # ops) = readFirst (k # R) ops"
| "readFirst R (GetEntries ks # ops) = readFirst (ks @ R) ops"
| "readFirst R (AddEntry document # ops) = (key document \<in> set R \<and> readFirst R ops)"
| "readFirst R (RemoveEntry k t # ops) = (k \<in> set R \<and> readFirst R ops)"

fun readKeys :: "BufferOp list \<Rightarrow> DocumentKey list" where
  "readKeys [] = []"
| "readKeys (GetEntry k # ops) = k # readKeys ops"
| "readKeys (GetEntries ks # ops) = ks @ readKeys ops"
| "readKeys (AddEntry document # ops) = readKeys ops"
| "readKeys (RemoveEntry k t # ops) = readKeys ops"

fun keySetsSorted :: "BufferOp list \<Rightarrow> bool" where
  "keySetsSorted [] = True"
| "keySetsSorted (GetEntries ks # ops) = (sorted_wrt (<) ks \<and> keySetsSorted ops)"
| "keySetsSorted (x # ops) = keySetsSorted ops"

text \<open>
  The sizes recorded by a buffer for the keys \<open>R\<close> read so far: every staged key is among
  them, and the recorded size of a key is the size of its row in the store, zero when
  there is none.
\<close>

definition sizesRecorded ::
  "'e LocalSerializer \<Rightarrow> 'e PersistenceTransaction \<Rightarrow> DocumentKey list
     \<Rightarrow> RemoteDocumentChangeBuffer \<Rightarrow> bool" where
  "sizesRecorded S transaction R buf =
     (fst ` set (changes buf) \<subseteq> set R
      \<and> (\<forall>k. documentSizes buf k =
             (if k \<in> set R
              then Some (dbDocumentSize S (sortedMapGet (remoteDocuments transaction) k))
              else None)))"

definition unreadBuffer :: RemoteDocumentChangeBuffer where
  "unreadBuffer = bufferAddEntry (newChangeBuffer None) (docAt [''docs'', ''foo''] 1)"

definition readFirstOps :: "BufferOp list" where
  "readFirstOps = [GetEntry [''docs'', ''foo''], AddEntry (docAt [''docs'', ''foo''] 1)]"

section \<open>Size accounting\<close>

text \<open>
  The sum of the sizes of the rows in the store, and the sum over the rows that a normal
  read returns as documents, that is, without the sentinel tombstones.
\<close>

definition storedSize :: "'e LocalSerializer \<Rightarrow> 'e PersistenceTransaction \<Rightarrow> int" where
  "storedSize S transaction =
     sum_list (map (\<lambda>p. int (byteSize S (snd p))) (remoteDocuments transaction))"

definition documentsSize :: "'e LocalSerializer \<Rightarrow> 'e PersistenceTransaction \<Rightarrow> int" where
  "documentsSize S transaction =
     sum_list (map (\<lambda>p. int (byteSize S (snd p)))
       (filter (\<lambda>p. \<not> isSentinelRemoval (fromDbRemoteDocument S (snd p)))
          (remoteDocuments transaction)))"

text \<open>
  One commit per operation, each through a change buffer of its own: the key is read,
  the change is staged and the buffer is applied.
\<close>

definition addThrough ::
  "(ResourcePath \<Rightarrow> string) \<Rightarrow> 'e LocalSerializer \<Rightarrow> bool option \<Rightarrow> 'e PersistenceTransaction
     \<Rightarrow> MutableDocument \<Rightarrow> error + 'e PersistenceTransaction" where
  "addThrough cs S options transaction document =
     applyChanges cs S transaction
       (readAndAdd S transaction (newChangeBuffer options) document)"

definition removeThrough ::
  "(ResourcePath \<Rightarrow> string) \<Rightarrow> 'e LocalSerializer \<Rightarrow> bool option \<Rightarrow> 'e PersistenceTransaction
     \<Rightarrow> DocumentKey \<Rightarrow> SnapshotVersion \<Rightarrow> error + 'e PersistenceTransaction" where
  "removeThrough cs S options transaction k t =
     applyChanges cs S transaction
       (readAndRemove S transaction (newChangeBuffer options) k t)"

definition fooDoc :: "SnapshotVersion \<Rightarrow> MutableDocument" where
  "fooDoc t =
     setReadTime t (newFoundDocument [''docs'', ''foo''] 1
       [(''foo'', BooleanValue False), (''bar'', IntegerValue 4)])"

definition fooTombstone :: "SnapshotVersion \<Rightarrow> MutableDocument DbRemoteDocument" where
  "fooTombstone t =
     toDbRemoteDocument identitySerializer
       (convertToNoDocument SnapshotVersion_min
          (setReadTime t (newInvalidDocument [''docs'', ''foo''])))"

definition sizeTransaction ::
  "MutableDocument DbRemoteDocument \<Rightarrow> int \<Rightarrow> ResourcePath list
     \<Rightarrow> MutableDocument PersistenceTransaction" where
  "sizeTransaction row counter notified =
     \<lparr>remoteDocuments = [([''docs'', ''foo''], row)],
      remoteDocumentGlobal = Some counter,
      collectionParentIndex = notified\<rparr>"

section \<open>Well-formed stores\<close>

text \<open>
  The rows of a store are in ascending key order. A store is keyed when every row
  decodes to a document of the key it is stored under, and indexed when every row carries
  the parent of its key as its parent path, as the rows written by \<open>applyChanges\<close> do
  for a serializer that fills these fields from the document.
\<close>

definition keyedRows ::
  "'e LocalSerializer \<Rightarrow> (DocumentKey \<times> 'e DbRemoteDocument) list \<Rightarrow> bool" where
  "keyedRows S rows = (\<forall>p \<in> set rows. key (fromDbRemoteDocument S (snd p)) = fst p)"

definition indexedRows :: "(DocumentKey \<times> 'e DbRemoteDocument) list \<Rightarrow> bool" where
  "indexedRows rows = (\<forall>p \<in> set rows. parentPath (snd p) = Some (popLast (fst p)))"

definition immediateChild :: "ResourcePath \<Rightarrow> DocumentKey \<Rightarrow> bool" where
  "immediateChild collection k = (length k = length collection + 1 \<and> isPrefixOf collection k)"

section \<open>Stores used at concrete inputs\<close>

definition docVersion :: "DocumentKey \<Rightarrow> SnapshotVersion \<Rightarrow> SnapshotVersion \<Rightarrow> MutableDocument" where
  "docVersion k v t = setReadTime t (newFoundDocument k v [])"

definition storeOf :: "MutableDocument list \<Rightarrow> MutableDocument PersistenceTransaction" where
  "storeOf docs =
     \<lparr>remoteDocuments =
        fold (\<lambda>d rows. sortedMapInsert (key d) (toDbRemoteDocument identitySerializer d) rows)
          docs [],
      remoteDocumentGlobal = Some 0, collectionParentIndex = []\<rparr>"

definition collectionsTransaction :: "MutableDocument PersistenceTransaction" where
  "collectionsTransaction =
     storeOf [docVersion [''a'', ''1''] 42 1, docVersion [''b'', ''1''] 42 1,
              docVersion [''b'', ''1'', ''z'', ''1''] 42 1, docVersion [''b'', ''2''] 42 1,
              docVersion [''c'', ''1''] 42 1]"

definition readTimesTransaction :: "MutableDocument PersistenceTransaction" where
  "readTimesTransaction =
     storeOf [docVersion [''b'', ''old''] 1 11, docVersion [''b'', ''current''] 2 12,
              docVersion [''b'', ''new''] 3 13]"

definition updateTimesTransaction :: "MutableDocument PersistenceTransaction" where
  "updateTimesTransaction =
     storeOf [docVersion [''b'', ''old''] 1 2, docVersion [''b'', ''new''] 2 1]"

definition changesTransaction :: "MutableDocument PersistenceTransaction" where
  "changesTransaction =
     storeOf [docVersion [''a'', ''1''] 3 3, docVersion [''b'', ''1''] 2 2,
              setReadTime 1 (newNoDocument [''b'', ''2''] SnapshotVersion_min)]"

definition laterChangesTransaction :: "MutableDocument PersistenceTransaction" where
  "laterChangesTransaction =
     storeOf [docVersion [''a'', ''1''] 3 3, docVersion [''b'', ''1''] 2 2,
              setReadTime 1 (newNoDocument [''b'', ''2''] SnapshotVersion_min),
              docVersion [''c'', ''1''] 4 4]"


section \<open>Documents held by a caller\<close>













section \<open>Facts about the store\<close>

lemmas model_defs =
  identitySerializer_def emptyTransaction_def
  bufferRemoveEntry_def bufferGetEntry_def bufferAddEntry_def newChangeBuffer_def
  getFromCache_def getSizedEntry_def maybeDecodeDocument_def sortedMapGet_def
  dbDocumentSize_def newInvalidDocument_def newNoDocument_def newFoundDocument_def
  setReadTime_def convertToNoDocument_def isValidDocument_def isNoDocument_def
  isSentinelRemoval_def SnapshotVersion_min_def popLast_def applyChanges_def addEntry_def
  removeEntry_def updateMetadata_def getMetadata_def setMetadata_def
  addToCollectionParentIndex_def sortedMapRemove_def getEntry_def

lemma map_of_sortedMapInsert:
  "map_of (sortedMapInsert k v xs) = (map_of xs)(k \<mapsto> v)"
  by (induction xs) (auto simp: fun_eq_iff)

lemma map_of_sortedMapRemove:
  "map_of (sortedMapRemove k xs) = (map_of xs)(k := None)"
  by (induction xs) (auto simp: sortedMapRemove_def fun_eq_iff)

lemma sortedMapGet_addEntry:
  "sortedMapGet (remoteDocuments (addEntry t k r)) k' =
     (if k' = k then Some r else sortedMapGet (remoteDocuments t) k')"
  by (simp add: sortedMapGet_def addEntry_def map_of_sortedMapInsert)

lemma sortedMapGet_removeEntry:
  "sortedMapGet (remoteDocuments (removeEntry t k)) k' =
     (if k' = k then None else sortedMapGet (remoteDocuments t) k')"
  by (simp add: sortedMapGet_def removeEntry_def map_of_sortedMapRemove)


lemma updateMetadata_docs:
  "updateMetadata t d = Inr t' \<Longrightarrow> remoteDocuments t' = remoteDocuments t"
  by (auto simp: updateMetadata_def getMetadata_def setMetadata_def split: option.splits sum.splits)

lemma fold_parents_docs:
  "remoteDocuments (fold (\<lambda>parent t. addToCollectionParentIndex t parent) ps t) = remoteDocuments t"
  by (induction ps arbitrary: t) (auto simp: addToCollectionParentIndex_def)


section \<open>Removals\<close>



section \<open>Assertions of \<open>applyChanges\<close>\<close>

lemma forEach_error_kind:
  "applyChanges_forEach cs S buf chs st = Inl e \<Longrightarrow>
     e = ReadTimeZero \<and> (\<exists>(k, d) \<in> set chs. isValidDocument d \<and> readTime d = SnapshotVersion_min)
   \<or> (\<exists>k \<in> fst ` set chs. e = CannotModifyUnread k \<and> documentSizes buf k = None)"
proof (induction chs arbitrary: st)
  case Nil
  then show ?case by simp
next
  case (Cons a chs)
  obtain k0 d0 where a: "a = (k0, d0)" by (cases a)
  obtain sd cp t where st: "st = (sd, cp, t)" by (cases st)
  from Cons.prems show ?case
    unfolding a st
    by (auto simp: Let_def split: option.splits if_splits dest!: Cons.IH)
qed

lemma forEach_read_time_zero:
  "(k, d) \<in> set chs \<Longrightarrow> isValidDocument d \<Longrightarrow> readTime d = SnapshotVersion_min \<Longrightarrow>
     \<exists>e. applyChanges_forEach cs S buf chs st = Inl e"
proof (induction chs arbitrary: st)
  case Nil
  then show ?case by simp
next
  case (Cons a chs)
  obtain k0 d0 where a: "a = (k0, d0)" by (cases a)
  obtain sd cp t where st: "st = (sd, cp, t)" by (cases st)
  show ?case
  proof (cases "(k, d) = (k0, d0)")
    case True
    with Cons.prems show ?thesis unfolding a st
      by (auto split: option.splits)
  next
    case False
    with Cons.prems a have "(k, d) \<in> set chs" by auto
    from Cons.IH[OF this Cons.prems(2,3)] show ?thesis unfolding a st
      by (auto simp: Let_def split: option.splits)
  qed
qed

lemma forEach_unread:
  "(k, d) \<in> set chs \<Longrightarrow> documentSizes buf k = None \<Longrightarrow>
     \<exists>e. applyChanges_forEach cs S buf chs st = Inl e"
proof (induction chs arbitrary: st)
  case Nil
  then show ?case by simp
next
  case (Cons a chs)
  obtain k0 d0 where a: "a = (k0, d0)" by (cases a)
  obtain sd cp t where st: "st = (sd, cp, t)" by (cases st)
  show ?case
  proof (cases "(k, d) = (k0, d0)")
    case True
    with Cons.prems show ?thesis unfolding a st
      by (auto split: option.splits)
  next
    case False
    with Cons.prems a have "(k, d) \<in> set chs" by auto
    from Cons.IH[OF this Cons.prems(2)] show ?thesis unfolding a st
      by (auto simp: Let_def split: option.splits)
  qed
qed

text \<open>
  Claim C10. A valid document staged with a read time equal to the minimum version
  cannot be committed: \<open>applyChanges\<close> ends in a failed assertion, and when every staged
  key was read through the buffer that assertion is the one about a read time of zero.
\<close>

theorem applyChanges_read_time_zero:
  assumes "(k, d) \<in> set (changes buf)"
    and "isValidDocument d"
    and "readTime d = SnapshotVersion_min"
  shows "(\<exists>e. applyChanges cs S transaction buf = Inl e)
       \<and> ((\<forall>k' \<in> fst ` set (changes buf). documentSizes buf k' \<noteq> None)
            \<longrightarrow> applyChanges cs S transaction buf = Inl ReadTimeZero)"
proof -
  from forEach_read_time_zero[OF assms] obtain e where
    e: "applyChanges_forEach cs S buf (changes buf) (0, [], transaction) = Inl e" by blast
  then have 1: "applyChanges cs S transaction buf = Inl e"
    by (simp add: applyChanges_def)
  from forEach_error_kind[OF e] have
    "(\<forall>k' \<in> fst ` set (changes buf). documentSizes buf k' \<noteq> None) \<longrightarrow> e = ReadTimeZero"
    by auto
  with 1 show ?thesis by auto
qed

theorem applyChanges_read_time_zero_witness:
  "([''docs'', ''foo''], newFoundDocument [''docs'', ''foo''] 1 [(''bar'', IntegerValue 4)])
      \<in> set (changes zeroReadTimeBuffer)
   \<and> isValidDocument (newFoundDocument [''docs'', ''foo''] 1 [(''bar'', IntegerValue 4)])
   \<and> readTime (newFoundDocument [''docs'', ''foo''] 1 [(''bar'', IntegerValue 4)])
       = SnapshotVersion_min
   \<and> applyChanges canonicalString identitySerializer emptyTransaction zeroReadTimeBuffer
       = Inl ReadTimeZero"
proof -
  have h1: "([''docs'', ''foo''],
             newFoundDocument [''docs'', ''foo''] 1 [(''bar'', IntegerValue 4)])
              \<in> set (changes zeroReadTimeBuffer)"
    by (simp add: model_defs zeroReadTimeBuffer_def)
  have h2: "isValidDocument (newFoundDocument [''docs'', ''foo''] 1 [(''bar'', IntegerValue 4)])"
    by (simp add: model_defs zeroReadTimeBuffer_def)
  have h3: "readTime (newFoundDocument [''docs'', ''foo''] 1 [(''bar'', IntegerValue 4)])
              = SnapshotVersion_min"
    by (simp add: model_defs zeroReadTimeBuffer_def)
  have h4: "\<forall>k' \<in> fst ` set (changes zeroReadTimeBuffer).
              documentSizes zeroReadTimeBuffer k' \<noteq> None"
    by (simp add: model_defs zeroReadTimeBuffer_def)
  from applyChanges_read_time_zero[OF h1 h2 h3, of canonicalString identitySerializer
         emptyTransaction] h1 h2 h3 h4
  show ?thesis by blast
qed

section \<open>Reading several keys\<close>

lemma map_of_dropWhile_below:
  fixes k :: "'a::linorder"
  shows "k \<le> x \<Longrightarrow> map_of (dropWhile (\<lambda>p. fst p < k) rows) x = map_of rows x"
  by (induction rows) auto

lemma sorted_keys_dropWhile:
  "sorted_wrt (<) (map fst rows) \<Longrightarrow> sorted_wrt (<) (map fst (dropWhile P rows))"
  by (induction rows) auto

lemma map_of_below_head:
  fixes k :: "'a::linorder"
  shows "sorted_wrt (<) (map fst ((pk, r) # rows)) \<Longrightarrow> k < pk \<Longrightarrow> map_of ((pk, r) # rows) k = None"
  by (auto simp: map_of_eq_None_iff)

lemma skipNotFound_result:
  assumes "sorted_wrt (<) (nextKey # keyIter)"
    and "potentialKey \<le> last (nextKey # keyIter)"
  shows "\<exists>k1 it1. dropWhile (\<lambda>k. k < potentialKey) (nextKey # keyIter) = k1 # it1
          \<and> skipNotFound potentialKey nextKey keyIter calls =
              Inr (k1, it1, calls @ map (\<lambda>k. (k, None))
                     (takeWhile (\<lambda>k. k < potentialKey) (nextKey # keyIter)))"
  using assms
proof (induction keyIter arbitrary: nextKey calls)
  case Nil
  then show ?case by auto
next
  case (Cons k ks)
  show ?case
  proof (cases "nextKey < potentialKey")
    case True
    from Cons.prems have s: "sorted_wrt (<) (k # ks)" and l: "potentialKey \<le> last (k # ks)"
      by auto
    from Cons.IH[OF s l, of "calls @ [(nextKey, None)]"] True show ?thesis
      by auto
  next
    case False
    then show ?thesis by auto
  qed
qed

lemma forEachDbEntry_iterate_result:
  assumes "sorted_wrt (<) (nextKey # keyIter)"
    and "sorted_wrt (<) (map fst rows)"
    and "\<forall>p \<in> set rows. fst p \<le> last (nextKey # keyIter)"
  shows "forEachDbEntry_iterate rows nextKey keyIter calls =
           Inr (calls @ map (\<lambda>k. (k, map_of rows k)) (nextKey # keyIter))"
  using assms
proof (induction rows nextKey keyIter calls rule: forEachDbEntry_iterate.induct)
  case (1 nextKey keyIter calls)
  then show ?case by simp
next
  case (2 potentialKey dbRemoteDoc rows nextKey keyIter calls)
  define ks where "ks = nextKey # keyIter"
  define allrows where "allrows = (potentialKey, dbRemoteDoc) # rows"
  define tw where "tw = takeWhile (\<lambda>k. k < potentialKey) ks"
  define f where "f = (\<lambda>k. (k, map_of allrows k))"
  from "2.prems" have le: "potentialKey \<le> last (nextKey # keyIter)" by simp
  from skipNotFound_result[OF "2.prems"(1) le, of calls] obtain k1 it1 where
    dw: "dropWhile (\<lambda>k. k < potentialKey) ks = k1 # it1"
    and sk: "skipNotFound potentialKey nextKey keyIter calls =
              Inr (k1, it1, calls @ map (\<lambda>k. (k, None)) tw)"
    unfolding ks_def tw_def by blast
  have split: "ks = tw @ k1 # it1"
    using dw takeWhile_dropWhile_id[of "\<lambda>k. k < potentialKey" ks] by (simp add: tw_def)
  have tw_none: "map (\<lambda>k. (k, None)) tw = map f tw"
  proof (rule map_cong[OF refl])
    fix k assume "k \<in> set tw"
    then have "k < potentialKey" by (auto simp: tw_def dest: set_takeWhileD)
    with "2.prems"(2) show "(k, None) = f k"
      using map_of_below_head[of potentialKey dbRemoteDoc rows k] by (simp add: f_def allrows_def)
  qed
  have sorted_ks: "sorted_wrt (<) ks" using "2.prems"(1) by (simp add: ks_def)
  have s1: "sorted_wrt (<) (k1 # it1)"
    using sorted_ks unfolding split by (simp add: sorted_wrt_append)
  have k1_ge: "potentialKey \<le> k1"
    using dw by (auto simp: dropWhile_eq_Cons_conv)
  have last1: "last (k1 # it1) = last (nextKey # keyIter)"
    using split by (simp add: ks_def[symmetric])
  have fk1: "k1 = potentialKey \<Longrightarrow> f k1 = (k1, Some dbRemoteDoc)"
    by (simp add: f_def allrows_def)
  have goal_rhs: "calls @ map f ks = (calls @ map (\<lambda>k. (k, None)) tw) @ f k1 # map f it1"
    unfolding split by (simp add: tw_none)
  have tail_eq: "potentialKey < k \<Longrightarrow> sorted_wrt (<) (k # ks') \<Longrightarrow>
        map (\<lambda>x. (x, map_of (dropWhile (\<lambda>p. fst p < k) rows) x)) (k # ks') = map f (k # ks')"
    for k ks'
  proof (rule map_cong[OF refl])
    fix x assume a: "potentialKey < k" "sorted_wrt (<) (k # ks')" "x \<in> set (k # ks')"
    then have "k \<le> x" by auto
    with a(1) show "(x, map_of (dropWhile (\<lambda>p. fst p < k) rows) x) = f x"
      by (auto simp: map_of_dropWhile_below f_def allrows_def)
  qed
  have rows': "sorted_wrt (<) (map fst (dropWhile (\<lambda>p. fst p < k) rows))" for k
    using "2.prems"(2) by (simp add: sorted_keys_dropWhile)
  have unfold: "forEachDbEntry_iterate ((potentialKey, dbRemoteDoc) # rows) nextKey keyIter calls =
     (if k1 = potentialKey then
        (case it1 of
           [] \<Rightarrow> Inr ((calls @ map (\<lambda>k. (k, None)) tw) @ [(k1, Some dbRemoteDoc)])
         | k # ks' \<Rightarrow>
             forEachDbEntry_iterate (dropWhile (\<lambda>p. fst p < k) rows) k ks'
               ((calls @ map (\<lambda>k. (k, None)) tw) @ [(k1, Some dbRemoteDoc)]))
      else
        forEachDbEntry_iterate (dropWhile (\<lambda>p. fst p < k1) rows) k1 it1
          (calls @ map (\<lambda>k. (k, None)) tw))"
    by (simp add: sk del: skipNotFound.simps)
  have "forEachDbEntry_iterate ((potentialKey, dbRemoteDoc) # rows) nextKey keyIter calls
          = Inr (calls @ map f ks)"
  proof (cases "k1 = potentialKey")
    case True
    show ?thesis
    proof (cases it1)
      case Nil
      with True unfold goal_rhs fk1 show ?thesis by simp
    next
      case (Cons k ks')
      have sk': "sorted_wrt (<) (k # ks')" using s1 Cons by simp
      have kgt: "potentialKey < k" using s1 Cons True by simp
      have l2: "last (k # ks') = last (nextKey # keyIter)"
        using last1 Cons by (metis last_ConsR list.distinct(1))
      have bound': "\<forall>p \<in> set (dropWhile (\<lambda>p. fst p < k) rows). fst p \<le> last (k # ks')"
      proof
        fix p assume "p \<in> set (dropWhile (\<lambda>p. fst p < k) rows)"
        then have "p \<in> set rows" by (rule set_dropWhileD)
        with "2.prems"(3) have "fst p \<le> last (nextKey # keyIter)"
          by (meson list.set_intros(2))
        then show "fst p \<le> last (k # ks')" by (simp only: l2)
      qed
      have IH: "forEachDbEntry_iterate (dropWhile (\<lambda>p. fst p < k) rows) k ks'
                  ((calls @ map (\<lambda>k. (k, None)) tw) @ [(k1, Some dbRemoteDoc)]) =
                Inr (((calls @ map (\<lambda>k. (k, None)) tw) @ [(k1, Some dbRemoteDoc)]) @
                     map (\<lambda>x. (x, map_of (dropWhile (\<lambda>p. fst p < k) rows) x)) (k # ks'))"
        using "2.IH"(1)[OF sk[unfolded tw_def ks_def] refl refl True Cons sk' rows' bound']
        by (simp add: tw_def ks_def)
      show ?thesis
        unfolding unfold goal_rhs using True Cons IH tail_eq[OF kgt sk'] fk1
        by simp
    qed
  next
    case False
    with k1_ge have kgt: "potentialKey < k1" by simp
    have bound': "\<forall>p \<in> set (dropWhile (\<lambda>p. fst p < k1) rows). fst p \<le> last (k1 # it1)"
    proof
      fix p assume "p \<in> set (dropWhile (\<lambda>p. fst p < k1) rows)"
      then have "p \<in> set rows" by (rule set_dropWhileD)
      with "2.prems"(3) have "fst p \<le> last (nextKey # keyIter)"
        by (meson list.set_intros(2))
      then show "fst p \<le> last (k1 # it1)" by (simp only: last1)
    qed
    have IH: "forEachDbEntry_iterate (dropWhile (\<lambda>p. fst p < k1) rows) k1 it1
                (calls @ map (\<lambda>k. (k, None)) tw) =
                Inr ((calls @ map (\<lambda>k. (k, None)) tw) @
                     map (\<lambda>x. (x, map_of (dropWhile (\<lambda>p. fst p < k1) rows) x)) (k1 # it1))"
      using "2.IH"(2)[OF sk[unfolded tw_def ks_def] refl refl False s1 rows' bound']
      by (simp add: tw_def ks_def)
    show ?thesis
      unfolding unfold goal_rhs using False IH tail_eq[OF kgt s1]
      by simp
  qed
  then show ?case by (simp add: f_def ks_def allrows_def)
qed

lemma sortedMapInsert_append:
  fixes k :: "'k::linorder"
  shows "\<forall>p \<in> set xs. fst p < k \<Longrightarrow> sortedMapInsert k v xs = xs @ [(k, v)]"
  by (induction xs) auto

lemma set_sortedMapInsert:
  "set (sortedMapInsert k v xs) \<subseteq> insert (k, v) (set xs)"
  by (induction xs) (auto split: if_splits)

lemma map_of_filter_keys:
  "map_of (filter (\<lambda>p. Q (fst p)) xs) k = (if Q k then map_of xs k else None)"
  by (induction xs) auto

lemma sorted_keys_filter:
  "sorted_wrt (<) (map fst rows) \<Longrightarrow> sorted_wrt (<) (map fst (filter P rows))"
  by (induction rows) auto

lemma sorted_hd_le:
  fixes ks :: "'a::linorder list"
  shows "sorted_wrt (<) ks \<Longrightarrow> x \<in> set ks \<Longrightarrow> hd ks \<le> x"
  by (cases ks) auto

lemma sorted_le_last:
  fixes ks :: "'a::linorder list"
  shows "sorted_wrt (<) ks \<Longrightarrow> x \<in> set ks \<Longrightarrow> x \<le> last ks"
proof (induction ks)
  case Nil
  then show ?case by simp
next
  case (Cons a ks)
  show ?case
  proof (cases "ks = []")
    case True
    with Cons.prems show ?thesis by simp
  next
    case False
    then have l: "last ks \<in> set ks" by simp
    show ?thesis
    proof (cases "x = a")
      case True
      with Cons.prems(1) l False show ?thesis by (auto intro: less_imp_le)
    next
      case False2: False
      with Cons.prems have "x \<in> set ks" "sorted_wrt (<) ks" by auto
      from Cons.IH[OF this(2,1)] False show ?thesis by simp
    qed
  qed
qed

lemma forEachDbEntry_result:
  assumes "sorted_wrt (<) documentKeys"
    and "sorted_wrt (<) (map fst (remoteDocuments transaction))"
  shows "forEachDbEntry transaction documentKeys =
           Inr (map (\<lambda>k. (k, sortedMapGet (remoteDocuments transaction) k)) documentKeys)"
proof (cases documentKeys)
  case Nil
  then show ?thesis by (simp add: forEachDbEntry_def)
next
  case (Cons nextKey keyIter)
  define rows where
    "rows = filter (\<lambda>p. hd documentKeys \<le> fst p \<and> fst p \<le> last documentKeys)
              (remoteDocuments transaction)"
  have s: "sorted_wrt (<) (nextKey # keyIter)" using assms(1) Cons by simp
  have r: "sorted_wrt (<) (map fst rows)"
    unfolding rows_def using assms(2) by (rule sorted_keys_filter)
  have b: "\<forall>p \<in> set rows. fst p \<le> last (nextKey # keyIter)"
    unfolding rows_def Cons[symmetric] by simp
  have eq: "map (\<lambda>k. (k, map_of rows k)) (nextKey # keyIter)
            = map (\<lambda>k. (k, sortedMapGet (remoteDocuments transaction) k)) documentKeys"
    unfolding Cons[symmetric]
  proof (rule map_cong[OF refl])
    fix x assume x: "x \<in> set documentKeys"
    have "hd documentKeys \<le> x" "x \<le> last documentKeys"
      using sorted_hd_le[OF assms(1) x] sorted_le_last[OF assms(1) x] by auto
    then show "(x, map_of rows x) = (x, sortedMapGet (remoteDocuments transaction) x)"
      unfolding rows_def sortedMapGet_def
      using map_of_filter_keys[of "\<lambda>k. hd documentKeys \<le> k \<and> k \<le> last documentKeys"
              "remoteDocuments transaction" x]
      by simp
  qed
  have "forEachDbEntry transaction documentKeys = forEachDbEntry_iterate rows nextKey keyIter []"
    by (simp add: forEachDbEntry_def Cons rows_def)
  also have "\<dots> = Inr ([] @ map (\<lambda>k. (k, map_of rows k)) (nextKey # keyIter))"
    by (rule forEachDbEntry_iterate_result[OF s r b])
  finally show ?thesis using eq by simp
qed



lemma fold_insert_pair_ascending:
  fixes ks :: "'k::linorder list"
  assumes "sorted_wrt (<) (map fst acc1 @ ks)" and "map fst acc2 = map fst acc1"
  shows "fold (\<lambda>(k, r) (results, sizeMap).
                 (sortedMapInsert k (g k r) results, sortedMapInsert k (g' r) sizeMap))
           (map (\<lambda>k. (k, h k)) ks) (acc1, acc2)
         = (acc1 @ map (\<lambda>k. (k, g k (h k))) ks, acc2 @ map (\<lambda>k. (k, g' (h k))) ks)"
  using assms
proof (induction ks arbitrary: acc1 acc2)
  case Nil
  then show ?case by simp
next
  case (Cons k ks)
  from Cons.prems have below1: "\<forall>p \<in> set acc1. fst p < k"
    by (auto simp: sorted_wrt_append)
  have below2: "\<forall>p \<in> set acc2. fst p < k"
  proof
    fix p assume "p \<in> set acc2"
    then have "fst p \<in> set (map fst acc2)" by simp
    then have "fst p \<in> set (map fst acc1)" by (simp only: Cons.prems(2))
    then obtain q where "q \<in> set acc1" "fst q = fst p" by auto
    with below1 show "fst p < k" by metis
  qed
  from Cons.prems have 1: "sorted_wrt (<) (map fst (acc1 @ [(k, g k (h k))]) @ ks)"
    by (auto simp: sorted_wrt_append)
  from Cons.prems(2) have 2: "map fst (acc2 @ [(k, g' (h k))]) = map fst (acc1 @ [(k, g k (h k))])"
    by simp
  from Cons.IH[OF 1 2] below1 below2 show ?case
    by (simp add: sortedMapInsert_append)
qed

lemma getSizedEntries_result:
  assumes "sorted_wrt (<) documentKeys"
    and "sorted_wrt (<) (map fst (remoteDocuments transaction))"
  shows "getSizedEntries S transaction documentKeys =
           Inr (map (\<lambda>k. (k, getEntry S transaction k)) documentKeys,
                map (\<lambda>k. (k, dbDocumentSize S (sortedMapGet (remoteDocuments transaction) k)))
                  documentKeys)"
proof -
  have "fold (\<lambda>(k, dbRemoteDoc) (results, sizeMap).
                 (sortedMapInsert k (maybeDecodeDocument S k dbRemoteDoc) results,
                  sortedMapInsert k (dbDocumentSize S dbRemoteDoc) sizeMap))
          (map (\<lambda>k. (k, sortedMapGet (remoteDocuments transaction) k)) documentKeys) ([], [])
        = ([] @ map (\<lambda>k. (k, maybeDecodeDocument S k
                               (sortedMapGet (remoteDocuments transaction) k))) documentKeys,
           [] @ map (\<lambda>k. (k, dbDocumentSize S
                               (sortedMapGet (remoteDocuments transaction) k))) documentKeys)"
    by (rule fold_insert_pair_ascending) (simp_all add: assms(1))
  then show ?thesis
    by (simp add: getSizedEntries_def forEachDbEntry_result[OF assms] getEntry_def)
qed

lemma fold_record_sizes:
  "fold (\<lambda>(documentKey, size) m. m(documentKey \<mapsto> size)) (map (\<lambda>k. (k, h k)) ks) m
     = (\<lambda>x. if x \<in> set ks then Some (h x) else m x)"
  by (induction ks arbitrary: m) (auto simp: fun_eq_iff)

lemma getAllFromCache_result:
  assumes "sorted_wrt (<) documentKeys"
    and "sorted_wrt (<) (map fst (remoteDocuments transaction))"
  shows "getAllFromCache S transaction buf documentKeys =
           Inr (map (\<lambda>k. (k, getEntry S transaction k)) documentKeys,
                buf\<lparr>documentSizes :=
                      (\<lambda>x. if x \<in> set documentKeys
                            then Some (dbDocumentSize S (sortedMapGet (remoteDocuments transaction) x))
                            else documentSizes buf x)\<rparr>)"
  by (simp add: getAllFromCache_def getSizedEntries_result[OF assms] fold_record_sizes)

lemma maybeDecodeDocument_not_sentinel:
  "\<not> isSentinelRemoval (maybeDecodeDocument S k r)"
  by (auto simp: maybeDecodeDocument_def Let_def isSentinelRemoval_def isNoDocument_def
        newInvalidDocument_def split: option.splits)

lemma fold_decode_elements:
  "(k, d) \<in> set (fold (\<lambda>(k, dbRemoteDoc) results.
                         sortedMapInsert k (maybeDecodeDocument S k dbRemoteDoc) results) calls acc)
   \<Longrightarrow> (k, d) \<in> set acc \<or> (\<exists>r. d = maybeDecodeDocument S k r)"
proof (induction calls arbitrary: acc)
  case Nil
  then show ?case by simp
next
  case (Cons a calls)
  obtain k0 r0 where a: "a = (k0, r0)" by (cases a)
  from Cons.prems a have
    "(k, d) \<in> set (fold (\<lambda>(k, dbRemoteDoc) results.
                         sortedMapInsert k (maybeDecodeDocument S k dbRemoteDoc) results) calls
                     (sortedMapInsert k0 (maybeDecodeDocument S k0 r0) acc))"
    by simp
  from Cons.IH[OF this] show ?case
    using set_sortedMapInsert[of k0 "maybeDecodeDocument S k0 r0" acc] by auto
qed

lemma getAll_iterate_elements:
  "(k, d) \<in> set (getAll_iterate S c n rows acc)
   \<Longrightarrow> (k, d) \<in> set acc \<or> (\<exists>k' r. d = maybeDecodeDocument S k' r)"
proof (induction rows arbitrary: acc)
  case Nil
  then show ?case by simp
next
  case (Cons a rows)
  obtain k0 r0 where a: "a = (k0, r0)" by (cases a)
  show ?case
  proof (cases "length k0 \<noteq> n")
    case True
    with Cons a show ?thesis by simp
  next
    case False
    show ?thesis
    proof (cases "isPrefixOf c (key (maybeDecodeDocument S k0 (Some r0)))")
      case True
      with False Cons.prems a have
        "(k, d) \<in> set (getAll_iterate S c n rows
            (sortedMapInsert (key (maybeDecodeDocument S k0 (Some r0)))
               (maybeDecodeDocument S k0 (Some r0)) acc))"
        by (simp add: Let_def)
      from Cons.IH[OF this] show ?thesis
        using set_sortedMapInsert[of "key (maybeDecodeDocument S k0 (Some r0))"
                "maybeDecodeDocument S k0 (Some r0)" acc] by auto
    next
      case False2: False
      with False Cons.prems a show ?thesis by (simp add: Let_def)
    qed
  qed
qed

section \<open>Sentinel tombstones and normal reads\<close>

text \<open>
  Claim C3. \<open>getEntry\<close> always returns a document: when the store has no row for the
  key, or the row decodes to a sentinel tombstone (a no-document at the minimum version),
  the result is the invalid document for that key. No document returned by \<open>getEntry\<close>,
  \<open>getEntries\<close> or \<open>getAll\<close> is a sentinel tombstone.
\<close>

theorem normal_reads_hide_sentinels:
  "((sortedMapGet (remoteDocuments transaction) k = None
      \<or> (\<exists>r. sortedMapGet (remoteDocuments transaction) k = Some r
              \<and> isSentinelRemoval (fromDbRemoteDocument S r)))
     \<longrightarrow> getEntry S transaction k = newInvalidDocument k)
   \<and> \<not> isSentinelRemoval (getEntry S transaction k)
   \<and> (\<forall>m. getEntries S transaction documentKeys = Inr m
          \<longrightarrow> (\<forall>(k', d) \<in> set m. \<not> isSentinelRemoval d))
   \<and> (\<forall>(k', d) \<in> set (getAll S transaction collection sinceReadTime).
          \<not> isSentinelRemoval d)"
proof -
  have a: "(sortedMapGet (remoteDocuments transaction) k = None
      \<or> (\<exists>r. sortedMapGet (remoteDocuments transaction) k = Some r
              \<and> isSentinelRemoval (fromDbRemoteDocument S r)))
     \<longrightarrow> getEntry S transaction k = newInvalidDocument k"
    by (auto simp: getEntry_def maybeDecodeDocument_def Let_def)
  have b: "\<not> isSentinelRemoval (getEntry S transaction k)"
    by (simp add: getEntry_def maybeDecodeDocument_not_sentinel)
  have c: "\<forall>m. getEntries S transaction documentKeys = Inr m
          \<longrightarrow> (\<forall>(k', d) \<in> set m. \<not> isSentinelRemoval d)"
    by (auto simp: getEntries_def split: sum.splits
          dest!: fold_decode_elements simp: maybeDecodeDocument_not_sentinel)
  have d: "\<forall>(k', d) \<in> set (getAll S transaction collection sinceReadTime).
          \<not> isSentinelRemoval d"
    by (auto simp: getAll_def Let_def dest!: getAll_iterate_elements
          simp: maybeDecodeDocument_not_sentinel)
  from a b c d show ?thesis by blast
qed

theorem normal_reads_hide_sentinels_witness:
  "sortedMapGet (remoteDocuments tombstoneTransaction) [''docs'', ''foo''] =
     Some \<lparr>encoded = setReadTime 4 (newNoDocument [''docs'', ''foo''] SnapshotVersion_min),
           dbReadTime = Some 4, parentPath = Some [''docs'']\<rparr>
   \<and> isSentinelRemoval (fromDbRemoteDocument identitySerializer
         \<lparr>encoded = setReadTime 4 (newNoDocument [''docs'', ''foo''] SnapshotVersion_min),
          dbReadTime = Some 4, parentPath = Some [''docs'']\<rparr>)
   \<and> getEntry identitySerializer tombstoneTransaction [''docs'', ''foo'']
       = newInvalidDocument [''docs'', ''foo'']"
proof -
  have h1: "sortedMapGet (remoteDocuments tombstoneTransaction) [''docs'', ''foo''] =
     Some \<lparr>encoded = setReadTime 4 (newNoDocument [''docs'', ''foo''] SnapshotVersion_min),
           dbReadTime = Some 4, parentPath = Some [''docs'']\<rparr>"
    by (simp add: model_defs tombstoneTransaction_def)
  have h2: "isSentinelRemoval (fromDbRemoteDocument identitySerializer
         \<lparr>encoded = setReadTime 4 (newNoDocument [''docs'', ''foo''] SnapshotVersion_min),
          dbReadTime = Some 4, parentPath = Some [''docs'']\<rparr>)"
    by (simp add: model_defs tombstoneTransaction_def)
  from normal_reads_hide_sentinels[of tombstoneTransaction "[''docs'', ''foo'']"
         identitySerializer "[]" "[]" 0] h1 h2
  show ?thesis by blast
qed

section \<open>Notifications to the index manager\<close>

lemma sortedSetAdd_sorted:
  "sorted_wrt (\<lambda>a b. cs a < cs b) qs \<Longrightarrow> sorted_wrt (\<lambda>a b. cs a < cs b) (sortedSetAdd cs p qs)"
proof (induction qs)
  case Nil
  then show ?case by simp
next
  case (Cons q qs)
  have sub: "cs ` set (sortedSetAdd cs p qs) \<subseteq> insert (cs p) (cs ` set qs)"
    by (induction qs) (auto split: if_splits)
  from Cons show ?case using sub by (auto split: if_splits)
qed

lemma sortedSetAdd_subset:
  "set (sortedSetAdd cs p qs) \<subseteq> insert p (set qs)"
  by (induction qs) (auto split: if_splits)

lemma sortedSetAdd_image:
  "cs ` set (sortedSetAdd cs p qs) = insert (cs p) (cs ` set qs)"
  by (induction qs) (auto split: if_splits)

lemma sortedSetAdd_set:
  "inj_on cs (insert p (set qs)) \<Longrightarrow> set (sortedSetAdd cs p qs) = insert p (set qs)"
proof (induction qs)
  case Nil
  then show ?case by simp
next
  case (Cons q qs)
  have sub: "insert p (set qs) \<subseteq> insert p (set (q # qs))" by auto
  have inj: "inj_on cs (insert p (set qs))"
    by (rule inj_on_subset[OF Cons.prems sub])
  have eq: "p = q" if "cs p = cs q"
    using inj_onD[OF Cons.prems that] by simp
  consider "cs p < cs q" | "\<not> cs p < cs q" "cs p = cs q" | "\<not> cs p < cs q" "cs p \<noteq> cs q"
    by blast
  then show ?case
  proof cases
    case 1
    then show ?thesis by simp
  next
    case 2
    with eq show ?thesis by simp
  next
    case 3
    with Cons.IH[OF inj] show ?thesis by (simp add: insert_commute)
  qed
qed

lemma sorted_cs_distinct:
  fixes cs :: "ResourcePath \<Rightarrow> string"
  shows "sorted_wrt (\<lambda>a b. cs a < cs b) qs \<Longrightarrow> distinct (map cs qs)"
  by (induction qs) auto

lemma forEach_parents:
  assumes "applyChanges_forEach cs S buf chs (sd, cp, t) = Inr (sd', cp', t')"
    and "sorted_wrt (\<lambda>a b. cs a < cs b) cp"
  shows "sorted_wrt (\<lambda>a b. cs a < cs b) cp'
       \<and> set cp' \<subseteq> set cp \<union> set (map (\<lambda>p. popLast (fst p)) (filter (\<lambda>p. isValidDocument (snd p)) chs))
       \<and> cs ` set cp' = cs ` (set cp \<union> set (map (\<lambda>p. popLast (fst p)) (filter (\<lambda>p. isValidDocument (snd p)) chs)))
       \<and> (inj_on cs (set cp \<union> set (map (\<lambda>p. popLast (fst p)) (filter (\<lambda>p. isValidDocument (snd p)) chs)))
            \<longrightarrow> set cp' = set cp \<union> set (map (\<lambda>p. popLast (fst p)) (filter (\<lambda>p. isValidDocument (snd p)) chs)))
       \<and> collectionParentIndex t' = collectionParentIndex t"
  using assms
proof (induction chs arbitrary: sd cp t)
  case Nil
  then show ?case by simp
next
  case (Cons a chs)
  obtain k0 d0 where a: "a = (k0, d0)" by (cases a)
  let ?P = "\<lambda>chs. set (map (\<lambda>p. popLast (fst p)) (filter (\<lambda>p. isValidDocument (snd p)) chs))"
  show ?case
  proof (cases "isValidDocument d0")
    case True
    from Cons.prems(1) a True obtain sd1 t1 where
      step: "applyChanges_forEach cs S buf chs (sd1, sortedSetAdd cs (popLast k0) cp, t1)
               = Inr (sd', cp', t')"
      and t1: "collectionParentIndex t1 = collectionParentIndex t"
      by (auto simp: Let_def addEntry_def split: option.splits if_splits)
    note IH = Cons.IH[OF step sortedSetAdd_sorted[OF Cons.prems(2)] ]
    have P: "?P (a # chs) = insert (popLast k0) (?P chs)" using a True by simp
    have 1: "sorted_wrt (\<lambda>a b. cs a < cs b) cp'" using IH by blast
    have 2: "set cp' \<subseteq> set cp \<union> ?P (a # chs)"
      using IH sortedSetAdd_subset[of cs "popLast k0" cp] unfolding P by blast
    have 3: "cs ` set cp' = cs ` (set cp \<union> ?P (a # chs))"
      using IH unfolding P by (simp add: sortedSetAdd_image image_Un)
    have 4: "set cp' = set cp \<union> ?P (a # chs)"
      if inj: "inj_on cs (set cp \<union> ?P (a # chs))"
    proof -
      have i1: "inj_on cs (insert (popLast k0) (set cp))"
        by (rule inj_on_subset[OF inj]) (auto simp: a True)
      have s: "set (sortedSetAdd cs (popLast k0) cp) = insert (popLast k0) (set cp)"
        by (rule sortedSetAdd_set[OF i1])
      have i2: "inj_on cs (set (sortedSetAdd cs (popLast k0) cp) \<union> ?P chs)"
        unfolding s by (rule inj_on_subset[OF inj]) (auto simp: a True)
      with IH have "set cp' = set (sortedSetAdd cs (popLast k0) cp) \<union> ?P chs" by blast
      then show ?thesis unfolding s P by auto
    qed
    have 5: "collectionParentIndex t' = collectionParentIndex t" using IH t1 by simp
    from 1 2 3 4 5 show ?thesis by blast
  next
    case False
    from Cons.prems(1) a False obtain sd1 t1 where
      step: "applyChanges_forEach cs S buf chs (sd1, cp, t1) = Inr (sd', cp', t')"
      and t1: "collectionParentIndex t1 = collectionParentIndex t"
      by (auto simp: Let_def addEntry_def removeEntry_def split: option.splits if_splits)
    have P: "?P (a # chs) = ?P chs" using a False by simp
    from Cons.IH[OF step Cons.prems(2)] t1 show ?thesis unfolding P by simp
  qed
qed

lemma fold_parents_index:
  "collectionParentIndex (fold (\<lambda>parent t. addToCollectionParentIndex t parent) ps t)
     = collectionParentIndex t @ ps"
  by (induction ps arbitrary: t) (auto simp: addToCollectionParentIndex_def)

lemma updateMetadata_index:
  "updateMetadata t d = Inr t' \<Longrightarrow> collectionParentIndex t' = collectionParentIndex t"
  by (auto simp: updateMetadata_def getMetadata_def setMetadata_def split: option.splits sum.splits)

text \<open>
  Claim C9. Within one \<open>applyChanges\<close> the index manager is notified at most once per
  collection parent: the calls it receives are issued after the loop over the staged
  keys, from the set the loop has built; they form a list without duplicates of parent
  paths of staged valid documents, and every such parent is notified up to its canonical
  string. Where the canonical string tells the touched parents apart, the notified paths
  are exactly the parents of the staged valid documents.
\<close>

theorem applyChanges_notifies_parents_once:
  assumes "applyChanges cs S transaction buf = Inr txn'"
  shows "\<exists>parents.
           collectionParentIndex txn' = collectionParentIndex transaction @ parents
         \<and> distinct parents
         \<and> set parents \<subseteq> set (touchedParents buf)
         \<and> cs ` set parents = cs ` set (touchedParents buf)
         \<and> (inj_on cs (set (touchedParents buf)) \<longrightarrow> set parents = set (touchedParents buf))"
proof -
  from assms obtain sd cp t1 where
    fe: "applyChanges_forEach cs S buf (changes buf) (0, [], transaction) = Inr (sd, cp, t1)"
    and um: "updateMetadata (fold (\<lambda>parent t. addToCollectionParentIndex t parent) cp t1) sd = Inr txn'"
    by (auto simp: applyChanges_def split: sum.splits)
  have s0: "sorted_wrt (\<lambda>a b. cs a < cs b) []" by simp
  note F = forEach_parents[OF fe s0]
  have idx: "collectionParentIndex txn' = collectionParentIndex transaction @ cp"
    using updateMetadata_index[OF um] F by (simp add: fold_parents_index)
  have "distinct (map cs cp)" using F sorted_cs_distinct by blast
  then have d: "distinct cp" by (rule distinct_map[THEN iffD1, THEN conjunct1])
  from F have "set cp \<subseteq> set (touchedParents buf)"
    and "cs ` set cp = cs ` set (touchedParents buf)"
    and "inj_on cs (set (touchedParents buf)) \<longrightarrow> set cp = set (touchedParents buf)"
    by (simp_all add: touchedParents_def)
  with idx d show ?thesis by blast
qed

theorem applyChanges_notifies_parents_once_witness:
  "applyChanges canonicalString identitySerializer emptyTransaction parentsBuffer
     = Inr parentsTransaction
   \<and> touchedParents parentsBuffer = [ [''b''], [''a''], [''b''] ]
   \<and> collectionParentIndex parentsTransaction
       = collectionParentIndex emptyTransaction @ [ [''a''], [''b''] ]
   \<and> (\<exists>parents. collectionParentIndex parentsTransaction
                    = collectionParentIndex emptyTransaction @ parents
                \<and> distinct parents
                \<and> set parents = set (touchedParents parentsBuffer))"
proof -
  have h1: "applyChanges canonicalString identitySerializer emptyTransaction parentsBuffer
              = Inr parentsTransaction"
    by (simp add: model_defs parentsBuffer_def parentsTransaction_def readAndAdd_def docAt_def)
  have h2: "touchedParents parentsBuffer = [ [''b''], [''a''], [''b''] ]"
    by (simp add: model_defs parentsBuffer_def touchedParents_def readAndAdd_def docAt_def)
  have h3: "inj_on canonicalString (set (touchedParents parentsBuffer))"
    by (auto simp: h2 inj_on_def)
  have h4: "collectionParentIndex parentsTransaction
              = collectionParentIndex emptyTransaction @ [ [''a''], [''b''] ]"
    by (simp add: parentsTransaction_def emptyTransaction_def)
  from applyChanges_notifies_parents_once[OF h1] h3 h1 h2 h4 show ?thesis
    by blast
qed

section \<open>Keys must be read before they are written\<close>

lemma objectMapSet_keys:
  "fst ` set (objectMapSet k v xs) = insert k (fst ` set xs)"
  by (induction xs) (force split: if_splits)+

lemma distinct_objectMapSet:
  "distinct (map fst xs) \<Longrightarrow> distinct (map fst (objectMapSet k v xs))"
  by (induction xs) (auto simp: objectMapSet_keys)

lemma getFromCache_sizes:
  "documentSizes (snd (getFromCache S transaction buf k)) =
     (documentSizes buf)(k \<mapsto> dbDocumentSize S (sortedMapGet (remoteDocuments transaction) k))"
  by (simp add: getFromCache_def getSizedEntry_def Let_def)

lemma getFromCache_changes:
  "changes (snd (getFromCache S transaction buf k)) = changes buf"
  by (simp add: getFromCache_def Let_def)

lemma bufferRun_sizesRecorded:
  assumes "sorted_wrt (<) (map fst (remoteDocuments transaction))"
    and "keySetsSorted ops"
    and "readFirst R ops"
    and "sizesRecorded S transaction R buf"
  shows "\<exists>b. bufferRun S transaction buf ops = Inr b
             \<and> sizesRecorded S transaction (R @ readKeys ops) b"
  using assms(2-)
proof (induction ops arbitrary: R buf)
  case Nil
  then show ?case by simp
next
  case (Cons x ops)
  show ?case
  proof (cases x)
    case (GetEntry k)
    let ?b = "snd (bufferGetEntry S transaction buf k)"
    have inv: "sizesRecorded S transaction (k # R) ?b"
    proof (cases "map_of (changes buf) k")
      case None
      then have "?b = snd (getFromCache S transaction buf k)"
        by (simp add: bufferGetEntry_def)
      with Cons.prems(3) show ?thesis
        by (auto simp: sizesRecorded_def getFromCache_sizes getFromCache_changes)
    next
      case (Some d)
      then have b: "?b = buf" by (simp add: bufferGetEntry_def)
      from Some have "(k, d) \<in> set (changes buf)" by (rule map_of_SomeD)
      then have "k \<in> fst ` set (changes buf)" by force
      with Cons.prems(3) have "k \<in> set R" by (auto simp: sizesRecorded_def)
      with Cons.prems(3) show ?thesis unfolding b
        by (auto simp: sizesRecorded_def)
    qed
    from Cons.prems GetEntry have "keySetsSorted ops" "readFirst (k # R) ops" by auto
    from Cons.IH[OF this inv] obtain b where
      "bufferRun S transaction ?b ops = Inr b"
      "sizesRecorded S transaction ((k # R) @ readKeys ops) b" by blast
    then show ?thesis using GetEntry
      by (auto simp: sizesRecorded_def)
  next
    case (GetEntries ks)
    from Cons.prems GetEntries have ks: "sorted_wrt (<) ks"
      and rest: "keySetsSorted ops" "readFirst (ks @ R) ops" by auto
    define missing where "missing = filter (\<lambda>k. map_of (changes buf) k = None) ks"
    define b1 where "b1 = buf\<lparr>documentSizes :=
                      (\<lambda>x. if x \<in> set missing
                            then Some (dbDocumentSize S (sortedMapGet (remoteDocuments transaction) x))
                            else documentSizes buf x)\<rparr>"
    have sm: "sorted_wrt (<) missing"
      unfolding missing_def using ks by (rule sorted_wrt_filter)
    have step: "bufferStep S transaction buf x = Inr b1"
      using GetEntries getAllFromCache_result[OF sm assms(1), of S buf]
      by (simp add: bufferGetEntries_def b1_def missing_def[symmetric])
    have staged: "k \<in> set R" if "k \<in> set ks" "k \<notin> set missing" for k
    proof -
      from that obtain d where "map_of (changes buf) k = Some d"
        by (auto simp: missing_def)
      then have "(k, d) \<in> set (changes buf)" by (rule map_of_SomeD)
      then have "k \<in> fst ` set (changes buf)" by force
      with Cons.prems(3) show ?thesis by (auto simp: sizesRecorded_def)
    qed
    have sub: "set missing \<subseteq> set ks" by (auto simp: missing_def)
    have inv: "sizesRecorded S transaction (ks @ R) b1"
      unfolding sizesRecorded_def
    proof (intro conjI allI)
      show "fst ` set (changes b1) \<subseteq> set (ks @ R)"
        using Cons.prems(3) by (auto simp: sizesRecorded_def b1_def)
    next
      fix k
      show "documentSizes b1 k =
              (if k \<in> set (ks @ R)
               then Some (dbDocumentSize S (sortedMapGet (remoteDocuments transaction) k))
               else None)"
      proof (cases "k \<in> set missing")
        case True
        with sub show ?thesis by (auto simp: b1_def)
      next
        case False
        show ?thesis
        proof (cases "k \<in> set ks")
          case True
          from staged[OF True False] Cons.prems(3) False show ?thesis
            by (auto simp: sizesRecorded_def b1_def)
        next
          case F: False
          with False Cons.prems(3) show ?thesis
            by (auto simp: sizesRecorded_def b1_def)
        qed
      qed
    qed
    from Cons.IH[OF rest inv] obtain b where
      "bufferRun S transaction b1 ops = Inr b"
      "sizesRecorded S transaction ((ks @ R) @ readKeys ops) b" by blast
    then show ?thesis using GetEntries step
      by (auto simp: sizesRecorded_def)
  next
    case (AddEntry d)
    from Cons.prems AddEntry have kd: "key d \<in> set R"
      and rest: "keySetsSorted ops" "readFirst R ops" by auto
    have inv: "sizesRecorded S transaction R (bufferAddEntry buf d)"
      using Cons.prems(3) kd
      by (auto simp: sizesRecorded_def bufferAddEntry_def objectMapSet_keys)
    from Cons.IH[OF rest inv] show ?thesis using AddEntry by simp
  next
    case (RemoveEntry k t)
    from Cons.prems RemoveEntry have kd: "k \<in> set R"
      and rest: "keySetsSorted ops" "readFirst R ops" by auto
    have inv: "sizesRecorded S transaction R (bufferRemoveEntry buf k t)"
      using Cons.prems(3) kd
      by (auto simp: sizesRecorded_def bufferRemoveEntry_def objectMapSet_keys)
    from Cons.IH[OF rest inv] show ?thesis using RemoveEntry by simp
  qed
qed

lemma applyChanges_error_kind:
  assumes "applyChanges cs S transaction buf = Inl e"
  shows "e = ReadTimeZero \<or> e = MissingMetadata
       \<or> (\<exists>k \<in> fst ` set (changes buf). e = CannotModifyUnread k \<and> documentSizes buf k = None)"
proof (cases "applyChanges_forEach cs S buf (changes buf) (0, [], transaction)")
  case (Inl e')
  with assms have "e' = e" by (simp add: applyChanges_def)
  with forEach_error_kind[OF Inl] show ?thesis by blast
next
  case (Inr r)
  with assms show ?thesis
    by (auto simp: applyChanges_def updateMetadata_def getMetadata_def
          split: prod.splits option.splits)
qed

text \<open>
  Claim C8. If \<open>applyChanges\<close> finds a staged key for which the buffer recorded no size,
  a fatal assertion fires: the one for the key that was not read, unless a staged
  document before it trips the one on the read time. Loading a key from the cache records
  the size of its row under that key, one entry per key. When every staged key was read
  through \<open>getEntry\<close> or \<open>getEntries\<close> of the buffer before it was staged, the buffer
  holds for each key read the size of its row, and \<open>applyChanges\<close> never fails with the
  assertion for an unread key.
\<close>

theorem unread_key_assertion:
  "(((k, d) \<in> set (changes buf) \<and> documentSizes buf k = None) \<longrightarrow>
      (\<exists>e. applyChanges cs S transaction buf = Inl e
          \<and> (e = ReadTimeZero
              \<or> (\<exists>k'. e = CannotModifyUnread k' \<and> documentSizes buf k' = None))))
   \<and> documentSizes (snd (getFromCache S transaction buf k)) =
       (documentSizes buf)(k \<mapsto> dbDocumentSize S (sortedMapGet (remoteDocuments transaction) k))
   \<and> ((sorted_wrt (<) (map fst (remoteDocuments transaction))
        \<and> keySetsSorted ops \<and> readFirst [] ops) \<longrightarrow>
      (\<exists>b. bufferRun S transaction (newChangeBuffer options) ops = Inr b
          \<and> (\<forall>k'. documentSizes b k' =
                (if k' \<in> set (readKeys ops)
                 then Some (dbDocumentSize S (sortedMapGet (remoteDocuments transaction) k'))
                 else None))
          \<and> (\<forall>k'. applyChanges cs S transaction b \<noteq> Inl (CannotModifyUnread k'))))"
proof (intro conjI impI)
  assume a: "(k, d) \<in> set (changes buf) \<and> documentSizes buf k = None"
  then obtain e where
    e: "applyChanges_forEach cs S buf (changes buf) (0, [], transaction) = Inl e"
    using forEach_unread[of k d "changes buf" buf cs S "(0, [], transaction)"] by blast
  then have "applyChanges cs S transaction buf = Inl e" by (simp add: applyChanges_def)
  with forEach_error_kind[OF e]
  show "\<exists>e. applyChanges cs S transaction buf = Inl e
          \<and> (e = ReadTimeZero
              \<or> (\<exists>k'. e = CannotModifyUnread k' \<and> documentSizes buf k' = None))"
    by blast
next
  show "documentSizes (snd (getFromCache S transaction buf k)) =
       (documentSizes buf)(k \<mapsto> dbDocumentSize S (sortedMapGet (remoteDocuments transaction) k))"
    by (rule getFromCache_sizes)
next
  assume a: "sorted_wrt (<) (map fst (remoteDocuments transaction))
        \<and> keySetsSorted ops \<and> readFirst [] ops"
  have inv0: "sizesRecorded S transaction [] (newChangeBuffer options)"
    by (simp add: sizesRecorded_def newChangeBuffer_def)
  from a bufferRun_sizesRecorded[OF _ _ _ inv0, of ops] obtain b where
    b: "bufferRun S transaction (newChangeBuffer options) ops = Inr b"
    and inv: "sizesRecorded S transaction ([] @ readKeys ops) b" by blast
  have no: "applyChanges cs S transaction b \<noteq> Inl (CannotModifyUnread k')" for k'
  proof
    assume "applyChanges cs S transaction b = Inl (CannotModifyUnread k')"
    from applyChanges_error_kind[OF this] have
      "k' \<in> fst ` set (changes b)" "documentSizes b k' = None" by auto
    with inv show False by (auto simp: sizesRecorded_def split: if_splits)
  qed
  from b inv no
  show "\<exists>b. bufferRun S transaction (newChangeBuffer options) ops = Inr b
          \<and> (\<forall>k'. documentSizes b k' =
                (if k' \<in> set (readKeys ops)
                 then Some (dbDocumentSize S (sortedMapGet (remoteDocuments transaction) k'))
                 else None))
          \<and> (\<forall>k'. applyChanges cs S transaction b \<noteq> Inl (CannotModifyUnread k'))"
    by (auto simp: sizesRecorded_def)
qed

theorem unread_key_assertion_witness:
  "([''docs'', ''foo''], docAt [''docs'', ''foo''] 1) \<in> set (changes unreadBuffer)
   \<and> documentSizes unreadBuffer [''docs'', ''foo''] = None
   \<and> applyChanges canonicalString identitySerializer emptyTransaction unreadBuffer
       = Inl (CannotModifyUnread [''docs'', ''foo''])
   \<and> sorted_wrt (<) (map fst (remoteDocuments emptyTransaction))
   \<and> keySetsSorted readFirstOps
   \<and> readFirst [] readFirstOps
   \<and> (\<exists>b. bufferRun identitySerializer emptyTransaction (newChangeBuffer None) readFirstOps
              = Inr b
          \<and> documentSizes b [''docs'', ''foo''] = Some 0
          \<and> applyChanges canonicalString identitySerializer emptyTransaction b
              \<noteq> Inl (CannotModifyUnread [''docs'', ''foo'']))"
proof -
  have h1: "([''docs'', ''foo''], docAt [''docs'', ''foo''] 1) \<in> set (changes unreadBuffer)"
    by (simp add: unreadBuffer_def model_defs docAt_def)
  have h2: "documentSizes unreadBuffer [''docs'', ''foo''] = None"
    by (simp add: unreadBuffer_def model_defs docAt_def)
  have h3: "applyChanges canonicalString identitySerializer emptyTransaction unreadBuffer
              = Inl (CannotModifyUnread [''docs'', ''foo''])"
    by (simp add: unreadBuffer_def model_defs docAt_def)
  have h4: "sorted_wrt (<) (map fst (remoteDocuments emptyTransaction))"
    by (simp add: emptyTransaction_def)
  have h5: "keySetsSorted readFirstOps" by (simp add: readFirstOps_def)
  have h6: "readFirst [] readFirstOps" by (simp add: readFirstOps_def docAt_def setReadTime_def newFoundDocument_def)
  have h7: "[''docs'', ''foo''] \<in> set (readKeys readFirstOps)" by (simp add: readFirstOps_def)
  have h8: "dbDocumentSize identitySerializer
              (sortedMapGet (remoteDocuments emptyTransaction) [''docs'', ''foo'']) = 0"
    by (simp add: model_defs)
  from unread_key_assertion[of "[''docs'', ''foo'']" "docAt [''docs'', ''foo''] 1" unreadBuffer
         canonicalString identitySerializer emptyTransaction readFirstOps None]
  have "\<exists>b. bufferRun identitySerializer emptyTransaction (newChangeBuffer None) readFirstOps
              = Inr b
          \<and> (\<forall>k'. documentSizes b k' =
                (if k' \<in> set (readKeys readFirstOps)
                 then Some (dbDocumentSize identitySerializer
                              (sortedMapGet (remoteDocuments emptyTransaction) k'))
                 else None))
          \<and> (\<forall>k'. applyChanges canonicalString identitySerializer emptyTransaction b
                    \<noteq> Inl (CannotModifyUnread k'))"
    using h4 h5 h6 by blast
  then obtain b where
    "bufferRun identitySerializer emptyTransaction (newChangeBuffer None) readFirstOps = Inr b"
    "documentSizes b [''docs'', ''foo''] = Some 0"
    "applyChanges canonicalString identitySerializer emptyTransaction b
       \<noteq> Inl (CannotModifyUnread [''docs'', ''foo''])"
    using h7 h8 by auto
  with h1 h2 h3 h4 h5 h6 show ?thesis by blast
qed

section \<open>The size counter\<close>

lemmas size_defs = model_defs addThrough_def readAndAdd_def

text \<open>
  Claim C1. The claim is that after every commit through a change buffer the byte-size
  counter equals the sum of the encoded sizes of the documents in the cache, and that it
  is back at \<open>0\<close> when all documents are removed. With buffers that track removals this
  fails: a removal writes a tombstone row whose size is not added to the counter, while a
  later read of the key records the size of that row as the prior size. Adding a
  document of size \<open>3\<close>, removing it, adding it again and removing it again leaves the
  counter at \<open>2\<close> after the third commit, where the store holds one document of size
  \<open>3\<close>, and at \<open>-1\<close> after the fourth, where no document is left.
\<close>

theorem size_counter_drifts_with_tombstones:
  "addThrough canonicalString identitySerializer (Some True) emptyTransaction (fooDoc 1)
     = Inr (sizeTransaction (toDbRemoteDocument identitySerializer (fooDoc 1)) 3 [ [''docs''] ])
   \<and> removeThrough canonicalString identitySerializer (Some True)
        (sizeTransaction (toDbRemoteDocument identitySerializer (fooDoc 1)) 3 [ [''docs''] ])
        [''docs'', ''foo''] 2
     = Inr (sizeTransaction (fooTombstone 2) 0 [ [''docs''] ])
   \<and> addThrough canonicalString identitySerializer (Some True)
        (sizeTransaction (fooTombstone 2) 0 [ [''docs''] ]) (fooDoc 3)
     = Inr (sizeTransaction (toDbRemoteDocument identitySerializer (fooDoc 3)) 2
              [ [''docs''], [''docs''] ])
   \<and> storedSize identitySerializer
        (sizeTransaction (toDbRemoteDocument identitySerializer (fooDoc 3)) 2
           [ [''docs''], [''docs''] ]) = 3
   \<and> documentsSize identitySerializer
        (sizeTransaction (toDbRemoteDocument identitySerializer (fooDoc 3)) 2
           [ [''docs''], [''docs''] ]) = 3
   \<and> removeThrough canonicalString identitySerializer (Some True)
        (sizeTransaction (toDbRemoteDocument identitySerializer (fooDoc 3)) 2
           [ [''docs''], [''docs''] ])
        [''docs'', ''foo''] 4
     = Inr (sizeTransaction (fooTombstone 4) (- 1) [ [''docs''], [''docs''] ])
   \<and> documentsSize identitySerializer
        (sizeTransaction (fooTombstone 4) (- 1) [ [''docs''], [''docs''] ]) = 0
   \<and> getEntry identitySerializer
        (sizeTransaction (fooTombstone 4) (- 1) [ [''docs''], [''docs''] ]) [''docs'', ''foo'']
     = newInvalidDocument [''docs'', ''foo'']"
  by (simp add: size_defs removeThrough_def readAndRemove_def fooDoc_def fooTombstone_def
        sizeTransaction_def storedSize_def documentsSize_def)

section \<open>Scanning a collection\<close>

lemma prefix_le_lex:
  fixes c :: "'a::linorder list"
  shows "prefix c k \<Longrightarrow> c \<le> k"
proof (induction c arbitrary: k)
  case Nil
  then show ?case by simp
next
  case (Cons a c)
  then obtain k' where "k = a # k'" "prefix c k'" by (cases k) auto
  with Cons.IH show ?case by simp
qed

lemma prefix_between:
  fixes c :: "'a::linorder list"
  shows "c \<le> k' \<Longrightarrow> k' \<le> k'' \<Longrightarrow> prefix c k'' \<Longrightarrow> prefix c k'"
proof (induction c arbitrary: k' k'')
  case Nil
  then show ?case by simp
next
  case (Cons a c)
  from Cons.prems(3) obtain s where k'': "k'' = a # s" and ps: "prefix c s"
    by (cases k'') auto
  from Cons.prems(1) obtain b r where k': "k' = b # r"
    by (cases k') auto
  from Cons.prems(1) k' have ab: "a < b \<or> a = b \<and> c \<le> r" by simp
  from Cons.prems(2) k' k'' have ba: "b < a \<or> b = a \<and> r \<le> s" by simp
  from ab ba have eq: "b = a" by auto
  from ab eq have 1: "c \<le> r" by simp
  from ba eq have 2: "r \<le> s" by simp
  from Cons.IH[OF 1 2 ps] k' eq show ?case by simp
qed

lemma key_maybeDecodeDocument:
  "key (fromDbRemoteDocument S r) = k \<Longrightarrow> key (maybeDecodeDocument S k (Some r)) = k"
  by (simp add: maybeDecodeDocument_def Let_def newInvalidDocument_def)

lemma getAll_iterate_no_stop:
  assumes "keyedRows S ys"
    and "\<forall>p \<in> set ys. length (fst p) = n \<longrightarrow> isPrefixOf c (fst p)"
  shows "getAll_iterate S c n (ys @ zs) acc =
           getAll_iterate S c n zs
             (fold (\<lambda>(k, r) m. sortedMapInsert k (maybeDecodeDocument S k (Some r)) m)
                (filter (\<lambda>p. length (fst p) = n) ys) acc)"
  using assms
proof (induction ys arbitrary: acc)
  case Nil
  then show ?case by simp
next
  case (Cons a ys)
  obtain k r where a: "a = (k, r)" by (cases a)
  from Cons.prems have keyed: "keyedRows S ys"
    and nostop: "\<forall>p \<in> set ys. length (fst p) = n \<longrightarrow> isPrefixOf c (fst p)"
    by (auto simp: keyedRows_def)
  from Cons.prems a have kk: "key (maybeDecodeDocument S k (Some r)) = k"
    by (auto simp: keyedRows_def intro: key_maybeDecodeDocument)
  show ?case
  proof (cases "length k = n")
    case True
    with Cons.prems(2) a have "isPrefixOf c k" by simp
    with True a kk Cons.IH[OF keyed nostop] show ?thesis by (simp add: Let_def)
  next
    case False
    with a Cons.IH[OF keyed nostop] show ?thesis by simp
  qed
qed

lemma getAll_iterate_no_child:
  assumes "keyedRows S zs"
    and "\<forall>p \<in> set zs. \<not> (length (fst p) = n \<and> isPrefixOf c (fst p))"
  shows "getAll_iterate S c n zs acc = acc"
  using assms
proof (induction zs arbitrary: acc)
  case Nil
  then show ?case by simp
next
  case (Cons a zs)
  obtain k r where a: "a = (k, r)" by (cases a)
  from Cons.prems have keyed: "keyedRows S zs"
    and nochild: "\<forall>p \<in> set zs. \<not> (length (fst p) = n \<and> isPrefixOf c (fst p))"
    by (auto simp: keyedRows_def)
  from Cons.prems a have kk: "key (maybeDecodeDocument S k (Some r)) = k"
    by (auto simp: keyedRows_def intro: key_maybeDecodeDocument)
  show ?case
  proof (cases "length k = n")
    case True
    with Cons.prems(2) a have "\<not> isPrefixOf c k" by simp
    with True a kk show ?thesis by (simp add: Let_def)
  next
    case False
    with a Cons.IH[OF keyed nochild] show ?thesis by simp
  qed
qed

lemma getAll_iterate_segments:
  assumes "keyedRows S (ys @ zs)"
    and "\<forall>p \<in> set ys. length (fst p) = n \<longrightarrow> isPrefixOf c (fst p)"
    and "\<forall>p \<in> set zs. \<not> (length (fst p) = n \<and> isPrefixOf c (fst p))"
  shows "getAll_iterate S c n (ys @ zs) [] =
           fold (\<lambda>(k, r) m. sortedMapInsert k (maybeDecodeDocument S k (Some r)) m)
             (filter (\<lambda>p. length (fst p) = n \<and> isPrefixOf c (fst p)) (ys @ zs)) []"
proof -
  from assms(1) have ky: "keyedRows S ys" and kz: "keyedRows S zs"
    by (auto simp: keyedRows_def)
  have f1: "filter (\<lambda>p. length (fst p) = n \<and> isPrefixOf c (fst p)) zs = []"
    using assms(3) by (auto simp: filter_empty_conv)
  have f2: "filter (\<lambda>p. length (fst p) = n \<and> isPrefixOf c (fst p)) ys
            = filter (\<lambda>p. length (fst p) = n) ys"
    using assms(2) by (auto intro: filter_cong)
  show ?thesis
    by (simp add: getAll_iterate_no_stop[OF ky assms(2)] getAll_iterate_no_child[OF kz assms(3)]
          f1 f2)
qed

lemma fold_insert_rows_ascending:
  fixes rows :: "('k::linorder \<times> 'r) list"
  assumes "sorted_wrt (<) (map fst acc @ map fst rows)"
  shows "fold (\<lambda>(k, r) m. sortedMapInsert k (g k r) m) rows acc
         = acc @ map (\<lambda>(k, r). (k, g k r)) rows"
  using assms
proof (induction rows arbitrary: acc)
  case Nil
  then show ?case by simp
next
  case (Cons a rows)
  obtain k r where a: "a = (k, r)" by (cases a)
  from Cons.prems a have below: "\<forall>p \<in> set acc. fst p < k"
    by (auto simp: sorted_wrt_append)
  from Cons.prems a have "sorted_wrt (<) (map fst (acc @ [(k, g k r)]) @ map fst rows)"
    by (auto simp: sorted_wrt_append)
  from Cons.IH[OF this] below a show ?case
    by (simp add: sortedMapInsert_append)
qed

lemma no_prefix_after_first:
  fixes c :: DocumentKey
  assumes "sorted_wrt (<) (map fst rows)"
    and "\<forall>p \<in> set rows. c \<le> fst p"
  shows "\<forall>p \<in> set (dropWhile (\<lambda>p. prefix c (fst p)) rows). \<not> prefix c (fst p)"
  using assms
proof (induction rows)
  case Nil
  then show ?case by simp
next
  case (Cons a rows)
  from Cons.prems(1) have s: "sorted_wrt (<) (map fst rows)" by simp
  from Cons.prems(1) have lt: "\<forall>x \<in> set rows. fst a < fst x" by simp
  from Cons.prems(2) have b: "\<forall>p \<in> set rows. c \<le> fst p" by simp
  from Cons.prems(2) have ca: "c \<le> fst a" by simp
  show ?case
  proof (cases "prefix c (fst a)")
    case True
    then have "dropWhile (\<lambda>p. prefix c (fst p)) (a # rows)
                 = dropWhile (\<lambda>p. prefix c (fst p)) rows" by simp
    with Cons.IH[OF s b] show ?thesis by (simp only:)
  next
    case False
    have np: "\<not> prefix c (fst p)" if "p \<in> set rows" for p
    proof
      assume pp: "prefix c (fst p)"
      from lt that have "fst a < fst p" by blast
      then have le: "fst a \<le> fst p" by (rule less_imp_le)
      from prefix_between[OF ca le pp] False show False by simp
    qed
    from False have "dropWhile (\<lambda>p. prefix c (fst p)) (a # rows) = a # rows" by simp
    with False np show ?thesis by (metis set_ConsD)
  qed
qed

lemma getAll_full_scan:
  assumes "sorted_wrt (<) (map fst (remoteDocuments transaction))"
    and "keyedRows S (remoteDocuments transaction)"
  shows "getAll S transaction collection SnapshotVersion_min =
           map (\<lambda>(k, r). (k, maybeDecodeDocument S k (Some r)))
             (filter (\<lambda>p. immediateChild collection (fst p)) (remoteDocuments transaction))"
proof -
  define n where "n = length collection + 1"
  define rows where "rows = filter (\<lambda>p. collection \<le> fst p) (remoteDocuments transaction)"
  define ys where "ys = takeWhile (\<lambda>p. prefix collection (fst p)) rows"
  define zs where "zs = dropWhile (\<lambda>p. prefix collection (fst p)) rows"
  have rows_split: "rows = ys @ zs" by (simp add: ys_def zs_def)
  have sorted_rows: "sorted_wrt (<) (map fst rows)"
    unfolding rows_def using assms(1) by (rule sorted_keys_filter)
  have keyed: "keyedRows S (ys @ zs)"
    using assms(2) unfolding rows_split[symmetric] rows_def keyedRows_def by simp
  have ys_ok: "\<forall>p \<in> set ys. length (fst p) = n \<longrightarrow> isPrefixOf collection (fst p)"
    by (auto simp: ys_def isPrefixOf_def dest: set_takeWhileD)
  have "\<forall>p \<in> set zs. \<not> prefix collection (fst p)"
    unfolding zs_def by (rule no_prefix_after_first[OF sorted_rows]) (simp add: rows_def)
  then have zs_ok: "\<forall>p \<in> set zs. \<not> (length (fst p) = n \<and> isPrefixOf collection (fst p))"
    by (simp add: isPrefixOf_def)
  have children: "filter (\<lambda>p. length (fst p) = n \<and> isPrefixOf collection (fst p)) rows
                  = filter (\<lambda>p. immediateChild collection (fst p)) (remoteDocuments transaction)"
    unfolding rows_def
    by (auto simp: immediateChild_def n_def isPrefixOf_def prefix_le_lex intro: filter_cong)
  have sorted_children:
    "sorted_wrt (<) (map fst [] @ map fst (filter (\<lambda>p. immediateChild collection (fst p))
                                 (remoteDocuments transaction)))"
    using sorted_keys_filter[OF assms(1)] by simp
  have "getAll S transaction collection SnapshotVersion_min = getAll_iterate S collection n rows []"
    by (simp add: getAll_def n_def rows_def)
  also have "\<dots> = fold (\<lambda>(k, r) m. sortedMapInsert k (maybeDecodeDocument S k (Some r)) m)
             (filter (\<lambda>p. length (fst p) = n \<and> isPrefixOf collection (fst p)) rows) []"
    unfolding rows_split by (rule getAll_iterate_segments[OF keyed ys_ok zs_ok])
  also have "\<dots> = [] @ map (\<lambda>(k, r). (k, maybeDecodeDocument S k (Some r)))
             (filter (\<lambda>p. immediateChild collection (fst p)) (remoteDocuments transaction))"
    unfolding children by (rule fold_insert_rows_ascending[OF sorted_children])
  finally show ?thesis by simp
qed

lemma collectionReadTimeIndex_set:
  "(i, k, r) \<in> set (collectionReadTimeIndex rows) \<longleftrightarrow>
     (k, r) \<in> set rows \<and> parentPath r = Some (fst i) \<and> dbReadTime r = Some (snd i)"
  by (cases i) (auto simp: collectionReadTimeIndex_def split: option.splits)

lemma collectionReadTimeIndex_sorted:
  "sorted (map (\<lambda>e. fst (fst e)) (collectionReadTimeIndex rows))"
proof -
  have "sorted (map (\<lambda>(i, k, r). (i, k)) (collectionReadTimeIndex rows))"
    unfolding collectionReadTimeIndex_def by (rule sorted_sort_key)
  then have "sorted_wrt (\<lambda>x y. (case x of (i, k, r) \<Rightarrow> (i, k)) \<le> (case y of (i, k, r) \<Rightarrow> (i, k)))
               (collectionReadTimeIndex rows)"
    by (simp add: sorted_map)
  then have "sorted_wrt (\<lambda>x y. fst (fst x) \<le> fst (fst y)) (collectionReadTimeIndex rows)"
    by (rule sorted_wrt_mono_rel[rotated]) (auto simp: less_eq_prod_def)
  then show ?thesis by (simp add: sorted_map)
qed

lemma none_equal_after_first:
  fixes f :: "'a \<Rightarrow> 'b::linorder"
  assumes "sorted (map f xs)" and "\<forall>x \<in> set xs. c \<le> f x"
  shows "\<forall>x \<in> set (dropWhile (\<lambda>x. f x = c) xs). f x \<noteq> c"
  using assms
proof (induction xs)
  case Nil
  then show ?case by simp
next
  case (Cons a xs)
  from Cons.prems(1) have s: "sorted (map f xs)" by simp
  from Cons.prems(1) have le: "\<forall>x \<in> set xs. f a \<le> f x" by simp
  from Cons.prems(2) have b: "\<forall>x \<in> set xs. c \<le> f x" by simp
  from Cons.prems(2) have ca: "c \<le> f a" by simp
  show ?case
  proof (cases "f a = c")
    case True
    then have "dropWhile (\<lambda>x. f x = c) (a # xs) = dropWhile (\<lambda>x. f x = c) xs" by simp
    with Cons.IH[OF s b] show ?thesis by (simp only:)
  next
    case False
    with ca have "c < f a" by simp
    with le have "\<forall>x \<in> set xs. f x \<noteq> c" by fastforce
    moreover from False have "dropWhile (\<lambda>x. f x = c) (a # xs) = a # xs" by simp
    ultimately show ?thesis using False by (metis set_ConsD)
  qed
qed

lemma sorted_sortedMapInsert:
  fixes k :: "'k::linorder"
  shows "sorted_wrt (<) (map fst xs) \<Longrightarrow> sorted_wrt (<) (map fst (sortedMapInsert k v xs))"
proof (induction xs)
  case Nil
  then show ?case by simp
next
  case (Cons a xs)
  have keys: "fst ` set (sortedMapInsert k v xs) \<subseteq> insert k (fst ` set xs)"
    using set_sortedMapInsert[of k v xs] by force
  obtain k' v' where a: "a = (k', v')" by (cases a)
  show ?case
  proof (cases "k < k'")
    case True
    with Cons.prems a show ?thesis by auto
  next
    case False
    show ?thesis
    proof (cases "k = k'")
      case True
      with Cons.prems a show ?thesis by auto
    next
      case neq: False
      with False have gt: "k' < k" by simp
      from Cons.prems a have s: "sorted_wrt (<) (map fst xs)" and lt: "\<forall>x \<in> set xs. k' < fst x"
        by auto
      have "\<forall>x \<in> set (sortedMapInsert k v xs). k' < fst x"
      proof
        fix x assume "x \<in> set (sortedMapInsert k v xs)"
        with keys have "fst x = k \<or> fst x \<in> fst ` set xs" by auto
        with gt lt show "k' < fst x" by auto
      qed
      with Cons.IH[OF s] False neq a show ?thesis by simp
    qed
  qed
qed

lemma sorted_fold_insert:
  fixes acc :: "('k::linorder \<times> 'v) list"
  shows "sorted_wrt (<) (map fst acc) \<Longrightarrow>
     sorted_wrt (<) (map fst (fold (\<lambda>(k, r) m. sortedMapInsert k (g k r) m) xs acc))"
proof (induction xs arbitrary: acc)
  case Nil
  then show ?case by simp
next
  case (Cons a xs)
  obtain k r where a: "a = (k, r)" by (cases a)
  from Cons.IH[OF sorted_sortedMapInsert[OF Cons.prems, of k "g k r"] ] a show ?case by simp
qed

lemma map_of_fold_insert:
  "map_of (fold (\<lambda>(k, r) m. sortedMapInsert k (g k r) m) xs acc) x =
     (case map_of (rev xs) x of Some r \<Rightarrow> Some (g x r) | None \<Rightarrow> map_of acc x)"
proof (induction xs arbitrary: acc)
  case Nil
  then show ?case by simp
next
  case (Cons a xs)
  obtain k r where a: "a = (k, r)" by (cases a)
  show ?case
    by (simp add: a Cons.IH map_of_sortedMapInsert map_add_def split: option.splits)
qed

lemma map_of_functional:
  assumes "\<And>r r'. (x, r) \<in> set xs \<Longrightarrow> (x, r') \<in> set xs \<Longrightarrow> r = r'"
  shows "map_of xs x = Some r \<longleftrightarrow> (x, r) \<in> set xs"
proof
  assume "map_of xs x = Some r"
  then show "(x, r) \<in> set xs" by (rule map_of_SomeD)
next
  assume m: "(x, r) \<in> set xs"
  then obtain r' where r': "map_of xs x = Some r'" by (auto dest: weak_map_of_SomeI)
  then have "(x, r') \<in> set xs" by (rule map_of_SomeD)
  with assms m have "r = r'" by blast
  with r' show "map_of xs x = Some r" by simp
qed

lemma sorted_keys_unique:
  fixes rows :: "('k::linorder \<times> 'v) list"
  assumes "sorted_wrt (<) (map fst rows)" "(k, r) \<in> set rows" "(k, r') \<in> set rows"
  shows "r = r'"
proof -
  from assms(1) have "distinct (map fst rows)"
    by (simp add: strict_sorted_iff)
  with assms(2,3) show ?thesis by (meson eq_key_imp_eq_value)
qed

lemma child_butlast:
  "length k = Suc (length c) \<Longrightarrow> prefix c k \<longleftrightarrow> butlast k = c"
proof
  assume l: "length k = Suc (length c)" and p: "prefix c k"
  then obtain s where k: "k = c @ s" by (auto simp: prefix_def)
  with l have "length s = 1" by simp
  then obtain x where "s = [x]" by (cases s) auto
  with k show "butlast k = c" by simp
next
  assume l: "length k = Suc (length c)" and b: "butlast k = c"
  from l have "k \<noteq> []" by auto
  then have "k = butlast k @ [last k]" by simp
  with b have "k = c @ [last k]" by simp
  then show "prefix c k" by (metis prefixI)
qed

lemma getAll_index_scan:
  assumes sorted: "sorted_wrt (<) (map fst (remoteDocuments transaction))"
    and keyed: "keyedRows S (remoteDocuments transaction)"
    and indexed: "indexedRows (remoteDocuments transaction)"
    and since: "sinceReadTime \<noteq> SnapshotVersion_min"
  shows "getAll S transaction collection sinceReadTime =
           fold (\<lambda>(k, r) m. sortedMapInsert k (maybeDecodeDocument S k (Some r)) m)
             (filter (\<lambda>p. immediateChild collection (fst p))
                (map snd (filter (\<lambda>e. (collection, sinceReadTime) < fst e)
                            (collectionReadTimeIndex (remoteDocuments transaction))))) []"
proof -
  define n where "n = length collection + 1"
  define E where "E = filter (\<lambda>e. (collection, sinceReadTime) < fst e)
                        (collectionReadTimeIndex (remoteDocuments transaction))"
  define ys where "ys = takeWhile (\<lambda>e. fst (fst e) = collection) E"
  define zs where "zs = dropWhile (\<lambda>e. fst (fst e) = collection) E"
  have E_split: "E = ys @ zs" by (simp add: ys_def zs_def)
  have E_mem: "(k, r) \<in> set (remoteDocuments transaction) \<and> parentPath r = Some (fst i)"
    if "(i, k, r) \<in> set E" for i k r
    using that by (simp add: E_def collectionReadTimeIndex_set)
  have E_parent: "butlast k = fst i" if "(i, k, r) \<in> set E" for i k r
  proof -
    from E_mem[OF that] indexed have "parentPath r = Some (popLast k)" "parentPath r = Some (fst i)"
      by (auto simp: indexedRows_def)
    then show ?thesis by (simp add: popLast_def)
  qed
  have keyedE: "keyedRows S (map snd ys @ map snd zs)"
  proof -
    have "set (map snd E) \<subseteq> set (remoteDocuments transaction)"
      using E_mem by force
    with keyed have "keyedRows S (map snd E)"
      unfolding keyedRows_def by blast
    then show ?thesis by (simp add: E_split)
  qed
  have ys_ok: "\<forall>p \<in> set (map snd ys). length (fst p) = n \<longrightarrow> isPrefixOf collection (fst p)"
  proof (intro ballI impI)
    fix p assume p: "p \<in> set (map snd ys)" and l: "length (fst p) = n"
    then obtain e where e: "e \<in> set ys" "p = snd e" by auto
    then have c: "fst (fst e) = collection" by (auto simp: ys_def dest: set_takeWhileD)
    from e have "e \<in> set E" by (auto simp: ys_def dest: set_takeWhileD)
    then have "(fst e, fst (snd e), snd (snd e)) \<in> set E" by simp
    from E_parent[OF this] c e have "butlast (fst p) = collection" by simp
    with l show "isPrefixOf collection (fst p)"
      by (simp add: isPrefixOf_def n_def child_butlast)
  qed
  have sortedE: "sorted (map (\<lambda>e. fst (fst e)) E)"
    unfolding E_def using collectionReadTimeIndex_sorted[of "remoteDocuments transaction"]
    by (simp add: sorted_map sorted_wrt_filter)
  have lowerE: "\<forall>e \<in> set E. collection \<le> fst (fst e)"
    by (auto simp: E_def less_prod_def)
  have zs_parent: "\<forall>e \<in> set zs. fst (fst e) \<noteq> collection"
    unfolding zs_def by (rule none_equal_after_first[OF sortedE lowerE])
  have zs_ok: "\<forall>p \<in> set (map snd zs).
                 \<not> (length (fst p) = n \<and> isPrefixOf collection (fst p))"
  proof (intro ballI notI)
    fix p assume p: "p \<in> set (map snd zs)"
      and l: "length (fst p) = n \<and> isPrefixOf collection (fst p)"
    then obtain e where e: "e \<in> set zs" "p = snd e" by auto
    with zs_parent have c: "fst (fst e) \<noteq> collection" by blast
    from e have "e \<in> set E" by (auto simp: zs_def dest: set_dropWhileD)
    then have "(fst e, fst (snd e), snd (snd e)) \<in> set E" by simp
    from E_parent[OF this] c e have "butlast (fst p) \<noteq> collection" by simp
    with l show False by (auto simp: isPrefixOf_def n_def child_butlast)
  qed
  have "getAll S transaction collection sinceReadTime =
          getAll_iterate S collection n (map snd ys @ map snd zs) []"
    using since by (simp add: getAll_def n_def E_def[symmetric] E_split)
  also have "\<dots> = fold (\<lambda>(k, r) m. sortedMapInsert k (maybeDecodeDocument S k (Some r)) m)
             (filter (\<lambda>p. length (fst p) = n \<and> isPrefixOf collection (fst p))
                (map snd ys @ map snd zs)) []"
    by (rule getAll_iterate_segments[OF keyedE ys_ok zs_ok])
  finally show ?thesis
    by (simp add: E_split E_def[symmetric] immediateChild_def n_def)
qed

lemma getAll_since_lookup:
  assumes sorted: "sorted_wrt (<) (map fst (remoteDocuments transaction))"
    and keyed: "keyedRows S (remoteDocuments transaction)"
    and indexed: "indexedRows (remoteDocuments transaction)"
    and since: "sinceReadTime \<noteq> SnapshotVersion_min"
  shows "sorted_wrt (<) (map fst (getAll S transaction collection sinceReadTime))"
    and "sortedMapGet (getAll S transaction collection sinceReadTime) k =
           (case sortedMapGet (remoteDocuments transaction) k of
              Some r \<Rightarrow>
                if immediateChild collection k
                   \<and> (\<exists>t. dbReadTime r = Some t \<and> sinceReadTime < t)
                then Some (maybeDecodeDocument S k (Some r))
                else None
            | None \<Rightarrow> None)"
proof -
  define xs where "xs = filter (\<lambda>p. immediateChild collection (fst p))
                (map snd (filter (\<lambda>e. (collection, sinceReadTime) < fst e)
                            (collectionReadTimeIndex (remoteDocuments transaction))))"
  note scan = getAll_index_scan[OF assms, of collection, folded xs_def]
  show "sorted_wrt (<) (map fst (getAll S transaction collection sinceReadTime))"
    unfolding scan by (rule sorted_fold_insert) simp
  have mem: "(k, r) \<in> set xs \<longleftrightarrow>
               (k, r) \<in> set (remoteDocuments transaction) \<and> immediateChild collection k
               \<and> (\<exists>t. dbReadTime r = Some t \<and> sinceReadTime < t)" for r
  proof
    assume "(k, r) \<in> set xs"
    then obtain i where child: "immediateChild collection k"
      and i: "(i, k, r) \<in> set (collectionReadTimeIndex (remoteDocuments transaction))"
      and lt: "(collection, sinceReadTime) < i"
      by (auto simp: xs_def)
    from i have row: "(k, r) \<in> set (remoteDocuments transaction)"
      and pp: "parentPath r = Some (fst i)" and rt: "dbReadTime r = Some (snd i)"
      by (simp_all add: collectionReadTimeIndex_set)
    from row indexed pp have "fst i = butlast k"
      by (auto simp: indexedRows_def popLast_def)
    with child have "fst i = collection"
      by (auto simp: immediateChild_def isPrefixOf_def child_butlast)
    with lt have "sinceReadTime < snd i" by (simp add: less_prod_def)
    with row child rt show "(k, r) \<in> set (remoteDocuments transaction)
        \<and> immediateChild collection k \<and> (\<exists>t. dbReadTime r = Some t \<and> sinceReadTime < t)"
      by blast
  next
    assume a: "(k, r) \<in> set (remoteDocuments transaction) \<and> immediateChild collection k
               \<and> (\<exists>t. dbReadTime r = Some t \<and> sinceReadTime < t)"
    then obtain t where rt: "dbReadTime r = Some t" and lt: "sinceReadTime < t" by blast
    from a indexed have "parentPath r = Some (butlast k)"
      by (auto simp: indexedRows_def popLast_def)
    moreover from a have "butlast k = collection"
      by (auto simp: immediateChild_def isPrefixOf_def child_butlast)
    ultimately have pp: "parentPath r = Some collection" by simp
    from a pp rt have "((collection, t), k, r) \<in> set (collectionReadTimeIndex (remoteDocuments transaction))"
      by (simp add: collectionReadTimeIndex_set)
    moreover from lt have "(collection, sinceReadTime) < (collection, t)"
      by (simp add: less_prod_def)
    ultimately show "(k, r) \<in> set xs" using a by (force simp: xs_def)
  qed
  have uniq: "r = r'" if "(k, r) \<in> set (rev xs)" "(k, r') \<in> set (rev xs)" for r r'
    using that mem sorted_keys_unique[OF sorted] by auto
  have lookup_xs: "map_of (rev xs) k = Some r \<longleftrightarrow> (k, r) \<in> set xs" for r
    using map_of_functional[of k "rev xs" r] uniq by auto
  have lookup_store: "sortedMapGet (remoteDocuments transaction) k = Some r
                        \<longleftrightarrow> (k, r) \<in> set (remoteDocuments transaction)" for r
    unfolding sortedMapGet_def
    using map_of_functional[of k "remoteDocuments transaction" r] sorted_keys_unique[OF sorted]
    by blast
  show "sortedMapGet (getAll S transaction collection sinceReadTime) k =
           (case sortedMapGet (remoteDocuments transaction) k of
              Some r \<Rightarrow>
                if immediateChild collection k
                   \<and> (\<exists>t. dbReadTime r = Some t \<and> sinceReadTime < t)
                then Some (maybeDecodeDocument S k (Some r))
                else None
            | None \<Rightarrow> None)"
  proof (cases "map_of (rev xs) k")
    case None
    have "sortedMapGet (getAll S transaction collection sinceReadTime) k = None"
      unfolding scan sortedMapGet_def by (simp add: map_of_fold_insert None)
    moreover have "\<not> (immediateChild collection k
                   \<and> (\<exists>t. dbReadTime r = Some t \<and> sinceReadTime < t))"
      if "sortedMapGet (remoteDocuments transaction) k = Some r" for r
    proof
      assume "immediateChild collection k \<and> (\<exists>t. dbReadTime r = Some t \<and> sinceReadTime < t)"
      with that lookup_store mem have "(k, r) \<in> set xs" by blast
      with lookup_xs None show False by simp
    qed
    ultimately show ?thesis by (auto split: option.splits)
  next
    case (Some r)
    have 1: "sortedMapGet (getAll S transaction collection sinceReadTime) k
               = Some (maybeDecodeDocument S k (Some r))"
      unfolding scan sortedMapGet_def by (simp add: map_of_fold_insert Some)
    from Some lookup_xs mem have
      row: "(k, r) \<in> set (remoteDocuments transaction)"
      and cond: "immediateChild collection k \<and> (\<exists>t. dbReadTime r = Some t \<and> sinceReadTime < t)"
      by blast+
    from row lookup_store have 2: "sortedMapGet (remoteDocuments transaction) k = Some r"
      by blast
    show ?thesis unfolding 1 2 using cond by simp
  qed
qed

section \<open>The documents of a collection\<close>

lemmas store_defs = model_defs storeOf_def docVersion_def keyedRows_def
  immediateChild_def isPrefixOf_def

lemma getAll_iterate_children:
  assumes "keyedRows S rows"
    and "p \<in> set (getAll_iterate S c n rows acc)"
  shows "p \<in> set acc \<or> (length (fst p) = n \<and> isPrefixOf c (fst p))"
  using assms
proof (induction rows arbitrary: acc)
  case Nil
  then show ?case by simp
next
  case (Cons a rows)
  obtain k r where a: "a = (k, r)" by (cases a)
  from Cons.prems(1) have keyed: "keyedRows S rows" by (simp add: keyedRows_def)
  from Cons.prems(1) a have kk: "key (maybeDecodeDocument S k (Some r)) = k"
    by (auto simp: keyedRows_def intro: key_maybeDecodeDocument)
  show ?case
  proof (cases "length k = n \<and> isPrefixOf c k")
    case True
    with Cons.prems(2) a kk have
      "p \<in> set (getAll_iterate S c n rows
                  (sortedMapInsert k (maybeDecodeDocument S k (Some r)) acc))"
      by (simp add: Let_def)
    from Cons.IH[OF keyed this] True show ?thesis
      using set_sortedMapInsert[of k "maybeDecodeDocument S k (Some r)" acc] by auto
  next
    case False
    show ?thesis
    proof (cases "length k = n")
      case True
      with False Cons.prems(2) a kk show ?thesis by (simp add: Let_def)
    next
      case F: False
      with Cons.prems(2) a have "p \<in> set (getAll_iterate S c n rows acc)" by simp
      from Cons.IH[OF keyed this] show ?thesis .
    qed
  qed
qed

lemma getAll_children:
  assumes "keyedRows S (remoteDocuments transaction)"
    and "p \<in> set (getAll S transaction collection sinceReadTime)"
  shows "immediateChild collection (fst p)"
proof -
  define rows where "rows =
      (if sinceReadTime = SnapshotVersion_min
       then filter (\<lambda>p. collection \<le> fst p) (remoteDocuments transaction)
       else map snd (filter (\<lambda>e. (collection, sinceReadTime) < fst e)
                       (collectionReadTimeIndex (remoteDocuments transaction))))"
  have "set rows \<subseteq> set (remoteDocuments transaction)"
    by (auto simp: rows_def collectionReadTimeIndex_set)
  with assms(1) have keyed: "keyedRows S rows" unfolding keyedRows_def by blast
  from assms(2) have "p \<in> set (getAll_iterate S collection (length collection + 1) rows [])"
    by (simp add: getAll_def rows_def Let_def)
  from getAll_iterate_children[OF keyed this] show ?thesis
    by (simp add: immediateChild_def)
qed

text \<open>
  Claim C4, as stated, has \<open>getAll\<close> return exactly the valid documents that are
  immediate children of the collection. A sentinel tombstone under the collection is
  returned as an invalid document.
\<close>

theorem getAll_returns_invalid_for_tombstone:
  "getAll identitySerializer tombstoneTransaction [''docs''] SnapshotVersion_min
     = [([''docs'', ''foo''], newInvalidDocument [''docs'', ''foo''])]
   \<and> \<not> isValidDocument (newInvalidDocument [''docs'', ''foo''])"
  by (simp add: getAll_def store_defs tombstoneTransaction_def)

text \<open>
  Claim C4, amended. For a store in key order whose rows decode to documents of their
  keys, \<open>getAll\<close> from the minimum read time returns, in key order, one entry for each
  row whose key is an immediate child of the collection (key length = collection length
  + 1): the decoded document, or the invalid document when the row is a sentinel
  tombstone. Whatever the read-time bound, every entry returned is an immediate child:
  rows of subcollections and rows outside the collection are never included.
\<close>

theorem getAll_immediate_children:
  assumes "sorted_wrt (<) (map fst (remoteDocuments transaction))"
    and "keyedRows S (remoteDocuments transaction)"
  shows "getAll S transaction collection SnapshotVersion_min =
           map (\<lambda>(k, r). (k, maybeDecodeDocument S k (Some r)))
             (filter (\<lambda>p. immediateChild collection (fst p)) (remoteDocuments transaction))
       \<and> (\<forall>p \<in> set (getAll S transaction collection sinceReadTime).
             immediateChild collection (fst p))"
  using getAll_full_scan[OF assms] getAll_children[OF assms(2)] by blast

theorem getAll_immediate_children_witness:
  "getAll identitySerializer collectionsTransaction [''b''] SnapshotVersion_min =
     [([''b'', ''1''], docVersion [''b'', ''1''] 42 1),
      ([''b'', ''2''], docVersion [''b'', ''2''] 42 1)]"
proof -
  have h1: "sorted_wrt (<) (map fst (remoteDocuments collectionsTransaction))"
    by (simp add: store_defs collectionsTransaction_def)
  have h2: "keyedRows identitySerializer (remoteDocuments collectionsTransaction)"
    by (simp add: store_defs collectionsTransaction_def)
  from getAll_immediate_children[OF h1 h2, of "[''b'']" 0] show ?thesis
    by (simp add: store_defs collectionsTransaction_def)
qed

text \<open>
  Claim C5, as stated, has \<open>getAll\<close> return the documents read at or after the bound.
  The lower bound of the index range is open: a document read exactly at the bound is
  not returned.
\<close>

theorem getAll_excludes_read_at_bound:
  "getAll identitySerializer readTimesTransaction [''b''] 12
     = [([''b'', ''new''], docVersion [''b'', ''new''] 3 13)]
   \<and> sortedMapGet (remoteDocuments readTimesTransaction) [''b'', ''current'']
     = Some (toDbRemoteDocument identitySerializer (docVersion [''b'', ''current''] 2 12))
   \<and> dbReadTime (toDbRemoteDocument identitySerializer (docVersion [''b'', ''current''] 2 12))
     = Some 12"
  by (simp add: getAll_def collectionReadTimeIndex_def store_defs readTimesTransaction_def)

text \<open>
  Claim C5, amended. For a bound other than the minimum read time and a store in key
  order whose rows decode to documents of their keys and carry the parent of their key,
  \<open>getAll\<close> returns, ordered by key, the rows of the collection whose stored read time
  is strictly greater than the bound, each decoded as a normal read decodes it. The
  selection looks at the read time stored with the row and at nothing of the document.
\<close>

theorem getAll_since_read_time:
  assumes "sorted_wrt (<) (map fst (remoteDocuments transaction))"
    and "keyedRows S (remoteDocuments transaction)"
    and "indexedRows (remoteDocuments transaction)"
    and "sinceReadTime \<noteq> SnapshotVersion_min"
  shows "sorted_wrt (<) (map fst (getAll S transaction collection sinceReadTime))
       \<and> sortedMapGet (getAll S transaction collection sinceReadTime) k =
           (case sortedMapGet (remoteDocuments transaction) k of
              Some r \<Rightarrow>
                if immediateChild collection k
                   \<and> (\<exists>t. dbReadTime r = Some t \<and> sinceReadTime < t)
                then Some (maybeDecodeDocument S k (Some r))
                else None
            | None \<Rightarrow> None)"
  using getAll_since_lookup[OF assms] by blast

theorem getAll_since_read_time_witness:
  "sortedMapGet (getAll identitySerializer updateTimesTransaction [''b''] 1) [''b'', ''old'']
     = Some (docVersion [''b'', ''old''] 1 2)
   \<and> sortedMapGet (getAll identitySerializer updateTimesTransaction [''b''] 1) [''b'', ''new'']
     = None"
proof -
  have h1: "sorted_wrt (<) (map fst (remoteDocuments updateTimesTransaction))"
    by (simp add: store_defs indexedRows_def updateTimesTransaction_def)
  have h2: "keyedRows identitySerializer (remoteDocuments updateTimesTransaction)"
    by (simp add: store_defs indexedRows_def updateTimesTransaction_def)
  have h3: "indexedRows (remoteDocuments updateTimesTransaction)"
    by (simp add: store_defs indexedRows_def updateTimesTransaction_def)
  have h4: "(1::nat) \<noteq> SnapshotVersion_min" by (simp add: SnapshotVersion_min_def)
  from getAll_since_read_time[OF h1 h2 h3 h4, of "[''b'']" "[''b'', ''old'']"]
       getAll_since_read_time[OF h1 h2 h3 h4, of "[''b'']" "[''b'', ''new'']"]
  show ?thesis
    by (simp add: store_defs indexedRows_def updateTimesTransaction_def)
qed

section \<open>Enumerating changes\<close>

lemma readTimeIndex_set:
  "(t, k, r) \<in> set (readTimeIndex rows) \<longleftrightarrow> (k, r) \<in> set rows \<and> dbReadTime r = Some t"
  by (auto simp: readTimeIndex_def split: option.splits)

lemma readTimeIndex_sorted:
  "sorted (map fst (readTimeIndex rows))"
proof -
  have "sorted (map (\<lambda>(t, k, r). (t, k)) (readTimeIndex rows))"
    unfolding readTimeIndex_def by (rule sorted_sort_key)
  then have "sorted_wrt (\<lambda>x y. (case x of (t, k, r) \<Rightarrow> (t, k)) \<le> (case y of (t, k, r) \<Rightarrow> (t, k)))
               (readTimeIndex rows)"
    by (simp add: sorted_map)
  then have "sorted_wrt (\<lambda>x y. fst x \<le> fst y) (readTimeIndex rows)"
    by (rule sorted_wrt_mono_rel[rotated]) (auto simp: less_eq_prod_def)
  then show ?thesis by (simp add: sorted_map)
qed

lemma changes_fold_docs:
  assumes "\<forall>e \<in> set E. key (fromDbRemoteDocument S (snd (snd e))) = fst (snd e)"
  shows "fst (fold (\<lambda>(t, _, dbRemoteDoc) (changedDocs, lastReadTime).
                 (let doc = fromDbRemoteDocument S dbRemoteDoc
                  in (sortedMapInsert (key doc) doc changedDocs, t))) E (acc, l))
         = fold (\<lambda>(k, r) m. sortedMapInsert k (fromDbRemoteDocument S r) m) (map snd E) acc"
  using assms
proof (induction E arbitrary: acc l)
  case Nil
  then show ?case by simp
next
  case (Cons e E)
  obtain t k r where e: "e = (t, k, r)" by (cases e)
  from Cons.prems e have kk: "key (fromDbRemoteDocument S r) = k" by simp
  from Cons.prems have rest: "\<forall>e \<in> set E. key (fromDbRemoteDocument S (snd (snd e))) = fst (snd e)"
    by simp
  from Cons.IH[OF rest] e kk show ?case by (simp add: Let_def)
qed

lemma changes_fold_checkpoint:
  "snd (fold (\<lambda>(t, _, dbRemoteDoc) (changedDocs, lastReadTime).
                 (let doc = fromDbRemoteDocument S dbRemoteDoc
                  in (sortedMapInsert (key doc) doc changedDocs, t))) E (acc, l))
     = (if E = [] then l else fst (last E))"
proof (induction E arbitrary: acc l)
  case Nil
  then show ?case by simp
next
  case (Cons e E)
  obtain t k r where e: "e = (t, k, r)" by (cases e)
  from Cons.IH show ?case by (simp add: e Let_def)
qed

lemma sorted_last_max:
  fixes f :: "'a \<Rightarrow> 'b::linorder"
  assumes "sorted (map f xs)" and "x \<in> set xs"
  shows "f x \<le> f (last xs)"
  using assms
proof (induction xs)
  case Nil
  then show ?case by simp
next
  case (Cons a xs)
  show ?case
  proof (cases "xs = []")
    case True
    with Cons.prems show ?thesis by simp
  next
    case False
    then have l: "last xs \<in> set xs" by simp
    from Cons.prems(1) have s: "sorted (map f xs)" and le: "\<forall>y \<in> set xs. f a \<le> f y" by auto
    show ?thesis
    proof (cases "x = a")
      case True
      with le l False show ?thesis by simp
    next
      case F: False
      with Cons.prems(2) have "x \<in> set xs" by simp
      from Cons.IH[OF s this] False show ?thesis by simp
    qed
  qed
qed

lemma newDocumentChanges_lookup:
  assumes sorted: "sorted_wrt (<) (map fst (remoteDocuments transaction))"
    and keyed: "keyedRows S (remoteDocuments transaction)"
  shows "sorted_wrt (<) (map fst (fst (remoteDocumentCacheGetNewDocumentChanges S transaction b)))"
    and "sortedMapGet (fst (remoteDocumentCacheGetNewDocumentChanges S transaction b)) k =
           (case sortedMapGet (remoteDocuments transaction) k of
              Some r \<Rightarrow>
                if \<exists>t. dbReadTime r = Some t \<and> b < t
                then Some (fromDbRemoteDocument S r)
                else None
            | None \<Rightarrow> None)"
proof -
  define E where "E = filter (\<lambda>e. b < fst e) (readTimeIndex (remoteDocuments transaction))"
  have E_mem: "(t, k', r) \<in> set E \<longleftrightarrow>
                 (k', r) \<in> set (remoteDocuments transaction) \<and> dbReadTime r = Some t \<and> b < t"
    for t k' r
    by (auto simp: E_def readTimeIndex_set)
  have keyedE: "\<forall>e \<in> set E. key (fromDbRemoteDocument S (snd (snd e))) = fst (snd e)"
  proof
    fix e assume e: "e \<in> set E"
    obtain t k' r where t: "e = (t, k', r)" by (cases e)
    with e have "(k', r) \<in> set (remoteDocuments transaction)"
      by (simp only: E_mem)
    with keyed t show "key (fromDbRemoteDocument S (snd (snd e))) = fst (snd e)"
      unfolding keyedRows_def by force
  qed
  have res: "fst (remoteDocumentCacheGetNewDocumentChanges S transaction b)
               = fold (\<lambda>(k, r) m. sortedMapInsert k (fromDbRemoteDocument S r) m) (map snd E) []"
    unfolding remoteDocumentCacheGetNewDocumentChanges_def E_def[symmetric]
    by (rule changes_fold_docs[OF keyedE])
  show "sorted_wrt (<) (map fst (fst (remoteDocumentCacheGetNewDocumentChanges S transaction b)))"
    unfolding res by (rule sorted_fold_insert) simp
  have mem: "(k, r) \<in> set (map snd E) \<longleftrightarrow>
               (k, r) \<in> set (remoteDocuments transaction) \<and> (\<exists>t. dbReadTime r = Some t \<and> b < t)"
    for r
  proof -
    have "(k, r) \<in> set (map snd E) \<longleftrightarrow> (\<exists>t. (t, k, r) \<in> set E)" by force
    then show ?thesis by (simp add: E_mem)
  qed
  have uniq: "r = r'" if "(k, r) \<in> set (rev (map snd E))" "(k, r') \<in> set (rev (map snd E))"
    for r r'
  proof -
    from that have "(k, r) \<in> set (map snd E)" "(k, r') \<in> set (map snd E)" by simp_all
    then have "(k, r) \<in> set (remoteDocuments transaction)"
      "(k, r') \<in> set (remoteDocuments transaction)" by (simp_all only: mem)
    then show ?thesis by (rule sorted_keys_unique[OF sorted])
  qed
  have lookup_E: "map_of (rev (map snd E)) k = Some r \<longleftrightarrow> (k, r) \<in> set (map snd E)" for r
    using map_of_functional[of k "rev (map snd E)" r] uniq by auto
  have lookup_store: "sortedMapGet (remoteDocuments transaction) k = Some r
                        \<longleftrightarrow> (k, r) \<in> set (remoteDocuments transaction)" for r
    unfolding sortedMapGet_def
    using map_of_functional[of k "remoteDocuments transaction" r] sorted_keys_unique[OF sorted]
    by blast
  show "sortedMapGet (fst (remoteDocumentCacheGetNewDocumentChanges S transaction b)) k =
           (case sortedMapGet (remoteDocuments transaction) k of
              Some r \<Rightarrow>
                if \<exists>t. dbReadTime r = Some t \<and> b < t
                then Some (fromDbRemoteDocument S r)
                else None
            | None \<Rightarrow> None)"
  proof (cases "map_of (rev (map snd E)) k")
    case None
    have 1: "sortedMapGet (fst (remoteDocumentCacheGetNewDocumentChanges S transaction b)) k = None"
      unfolding res sortedMapGet_def by (simp add: map_of_fold_insert None)
    have "\<not> (\<exists>t. dbReadTime r = Some t \<and> b < t)"
      if "sortedMapGet (remoteDocuments transaction) k = Some r" for r
    proof
      assume "\<exists>t. dbReadTime r = Some t \<and> b < t"
      with that lookup_store mem have "(k, r) \<in> set (map snd E)" by blast
      with lookup_E None show False by simp
    qed
    with 1 show ?thesis by (auto split: option.splits)
  next
    case (Some r)
    have 1: "sortedMapGet (fst (remoteDocumentCacheGetNewDocumentChanges S transaction b)) k
               = Some (fromDbRemoteDocument S r)"
      unfolding res sortedMapGet_def by (simp add: map_of_fold_insert Some)
    from Some lookup_E mem have
      row: "(k, r) \<in> set (remoteDocuments transaction)"
      and cond: "\<exists>t. dbReadTime r = Some t \<and> b < t"
      by blast+
    from row lookup_store have 2: "sortedMapGet (remoteDocuments transaction) k = Some r"
      by blast
    show ?thesis unfolding 1 2 using cond by simp
  qed
qed

lemma newDocumentChanges_checkpoint:
  "b \<le> snd (remoteDocumentCacheGetNewDocumentChanges S transaction b)"
  "(k, r) \<in> set (remoteDocuments transaction) \<Longrightarrow> dbReadTime r = Some t
     \<Longrightarrow> t \<le> snd (remoteDocumentCacheGetNewDocumentChanges S transaction b)"
  "snd (remoteDocumentCacheGetNewDocumentChanges S transaction b) = b
     \<or> (\<exists>k r. (k, r) \<in> set (remoteDocuments transaction)
            \<and> dbReadTime r = Some (snd (remoteDocumentCacheGetNewDocumentChanges S transaction b)))"
proof -
  define E where "E = filter (\<lambda>e. b < fst e) (readTimeIndex (remoteDocuments transaction))"
  have cp: "snd (remoteDocumentCacheGetNewDocumentChanges S transaction b)
              = (if E = [] then b else fst (last E))"
    unfolding remoteDocumentCacheGetNewDocumentChanges_def E_def[symmetric]
    by (rule changes_fold_checkpoint)
  have sortedE: "sorted (map fst E)"
    unfolding E_def using readTimeIndex_sorted[of "remoteDocuments transaction"]
    by (simp add: sorted_map sorted_wrt_filter)
  have lastE: "last E \<in> set E" if "E \<noteq> []" using that by simp
  show 1: "b \<le> snd (remoteDocumentCacheGetNewDocumentChanges S transaction b)"
  proof (cases "E = []")
    case True
    with cp show ?thesis by simp
  next
    case False
    from lastE[OF False] have "b < fst (last E)" by (simp add: E_def)
    with cp False show ?thesis by simp
  qed
  show "t \<le> snd (remoteDocumentCacheGetNewDocumentChanges S transaction b)"
    if row: "(k, r) \<in> set (remoteDocuments transaction)" and rt: "dbReadTime r = Some t"
  proof (cases "b < t")
    case True
    with row rt have mem: "(t, k, r) \<in> set E" by (simp add: E_def readTimeIndex_set)
    then have ne: "E \<noteq> []" by auto
    from sorted_last_max[OF sortedE mem] have "t \<le> fst (last E)" by simp
    with cp ne show ?thesis by simp
  next
    case False
    with 1 show ?thesis by simp
  qed
  show "snd (remoteDocumentCacheGetNewDocumentChanges S transaction b) = b
     \<or> (\<exists>k r. (k, r) \<in> set (remoteDocuments transaction)
            \<and> dbReadTime r = Some (snd (remoteDocumentCacheGetNewDocumentChanges S transaction b)))"
  proof (cases "E = []")
    case True
    with cp show ?thesis by simp
  next
    case False
    obtain t k r where l: "last E = (t, k, r)" by (cases "last E")
    with lastE[OF False] have "(t, k, r) \<in> set (readTimeIndex (remoteDocuments transaction))"
      by (simp add: E_def)
    then have "(k, r) \<in> set (remoteDocuments transaction) \<and> dbReadTime r = Some t"
      by (simp only: readTimeIndex_set)
    with cp False l show ?thesis by auto
  qed
qed

lemma newDocumentChanges_scan_order:
  "sorted (map fst (filter (\<lambda>e. b < fst e) (readTimeIndex (remoteDocuments transaction))))"
  using readTimeIndex_sorted[of "remoteDocuments transaction"]
  by (simp add: sorted_map sorted_wrt_filter)

lemma newDocumentChanges_from_checkpoint:
  "fst (remoteDocumentCacheGetNewDocumentChanges S transaction
          (snd (remoteDocumentCacheGetNewDocumentChanges S transaction b))) = []"
proof -
  define c where "c = snd (remoteDocumentCacheGetNewDocumentChanges S transaction b)"
  have "filter (\<lambda>e. c < fst e) (readTimeIndex (remoteDocuments transaction)) = []"
  proof (rule ccontr)
    assume "filter (\<lambda>e. c < fst e) (readTimeIndex (remoteDocuments transaction)) \<noteq> []"
    then obtain e where e: "e \<in> set (readTimeIndex (remoteDocuments transaction))" "c < fst e"
      by (auto simp: filter_empty_conv)
    obtain t k r where t: "e = (t, k, r)" by (cases e)
    with e(1) have "(k, r) \<in> set (remoteDocuments transaction) \<and> dbReadTime r = Some t"
      by (simp only: readTimeIndex_set)
    then have "t \<le> c"
      unfolding c_def using newDocumentChanges_checkpoint(2)[of k r transaction t S b] by blast
    with e(2) t show False by simp
  qed
  then have "fst (remoteDocumentCacheGetNewDocumentChanges S transaction c) = []"
    by (simp add: remoteDocumentCacheGetNewDocumentChanges_def)
  then show ?thesis by (simp only: c_def)
qed

lemmas changes_defs = store_defs remoteDocumentCacheGetNewDocumentChanges_def readTimeIndex_def

text \<open>
  Claim C2, as stated, has the change enumeration return the documents ordered by read
  time. The iteration visits the rows in that order, but the result is a map keyed by
  document key: with \<open>a/1\<close> read at \<open>3\<close>, \<open>b/1\<close> at \<open>2\<close> and the tombstone of \<open>b/2\<close> at
  \<open>1\<close>, the documents come back in key order, their read times descending.
\<close>

theorem newDocumentChanges_ordered_by_key:
  "remoteDocumentCacheGetNewDocumentChanges identitySerializer changesTransaction
     SnapshotVersion_min
     = ([([''a'', ''1''], docVersion [''a'', ''1''] 3 3),
         ([''b'', ''1''], docVersion [''b'', ''1''] 2 2),
         ([''b'', ''2''], setReadTime 1 (newNoDocument [''b'', ''2''] SnapshotVersion_min))],
        3)
   \<and> map (\<lambda>p. readTime (snd p))
        (fst (remoteDocumentCacheGetNewDocumentChanges identitySerializer changesTransaction
                SnapshotVersion_min)) = [3, 2, 1]"
  by (simp add: changes_defs changesTransaction_def)

text \<open>
  Claim C2, amended. For a store in key order whose rows decode to documents of their
  keys, the change enumeration visits the rows above the bound in ascending read-time
  order and returns, as a map keyed and ordered by document key, the decoded row
  (sentinel tombstones as they are) of exactly the keys whose stored read time strictly
  exceeds the bound. The checkpoint is the maximum read time observed: it is at least
  the bound and at least every stored read time, and it is the bound itself or the read
  time of a stored row. Enumerating again from the checkpoint returns nothing on the
  same store, and on any later store only documents whose stored read time is strictly
  greater than the checkpoint.
\<close>

theorem newDocumentChanges_checkpoint_exact:
  assumes "sorted_wrt (<) (map fst (remoteDocuments transaction))"
    and "keyedRows S (remoteDocuments transaction)"
    and "sorted_wrt (<) (map fst (remoteDocuments later))"
    and "keyedRows S (remoteDocuments later)"
  shows "sorted (map fst (filter (\<lambda>e. b < fst e) (readTimeIndex (remoteDocuments transaction))))
       \<and> sorted_wrt (<) (map fst (fst (remoteDocumentCacheGetNewDocumentChanges S transaction b)))
       \<and> sortedMapGet (fst (remoteDocumentCacheGetNewDocumentChanges S transaction b)) k =
           (case sortedMapGet (remoteDocuments transaction) k of
              Some r \<Rightarrow>
                if \<exists>t. dbReadTime r = Some t \<and> b < t
                then Some (fromDbRemoteDocument S r)
                else None
            | None \<Rightarrow> None)
       \<and> b \<le> snd (remoteDocumentCacheGetNewDocumentChanges S transaction b)
       \<and> (\<forall>p \<in> set (remoteDocuments transaction).
             \<forall>t. dbReadTime (snd p) = Some t
               \<longrightarrow> t \<le> snd (remoteDocumentCacheGetNewDocumentChanges S transaction b))
       \<and> (snd (remoteDocumentCacheGetNewDocumentChanges S transaction b) = b
           \<or> (\<exists>k r. (k, r) \<in> set (remoteDocuments transaction)
                 \<and> dbReadTime r
                     = Some (snd (remoteDocumentCacheGetNewDocumentChanges S transaction b))))
       \<and> fst (remoteDocumentCacheGetNewDocumentChanges S transaction
                 (snd (remoteDocumentCacheGetNewDocumentChanges S transaction b))) = []
       \<and> (\<forall>d. sortedMapGet
                  (fst (remoteDocumentCacheGetNewDocumentChanges S later
                          (snd (remoteDocumentCacheGetNewDocumentChanges S transaction b)))) k
                = Some d
              \<longrightarrow> (\<exists>r t. sortedMapGet (remoteDocuments later) k = Some r
                      \<and> dbReadTime r = Some t
                      \<and> snd (remoteDocumentCacheGetNewDocumentChanges S transaction b) < t))"
proof -
  have bound: "\<forall>p \<in> set (remoteDocuments transaction).
             \<forall>t. dbReadTime (snd p) = Some t
               \<longrightarrow> t \<le> snd (remoteDocumentCacheGetNewDocumentChanges S transaction b)"
  proof (intro ballI allI impI)
    fix p t assume "p \<in> set (remoteDocuments transaction)" "dbReadTime (snd p) = Some t"
    then have "(fst p, snd p) \<in> set (remoteDocuments transaction)" by simp
    from newDocumentChanges_checkpoint(2)[OF this \<open>dbReadTime (snd p) = Some t\<close>]
    show "t \<le> snd (remoteDocumentCacheGetNewDocumentChanges S transaction b)" .
  qed
  have later: "\<forall>d. sortedMapGet
                  (fst (remoteDocumentCacheGetNewDocumentChanges S later
                          (snd (remoteDocumentCacheGetNewDocumentChanges S transaction b)))) k
                = Some d
              \<longrightarrow> (\<exists>r t. sortedMapGet (remoteDocuments later) k = Some r
                      \<and> dbReadTime r = Some t
                      \<and> snd (remoteDocumentCacheGetNewDocumentChanges S transaction b) < t)"
    unfolding newDocumentChanges_lookup(2)[OF assms(3,4)]
    by (auto split: option.splits if_splits)
  note scan = newDocumentChanges_scan_order[of b transaction]
  note lookup = newDocumentChanges_lookup[OF assms(1,2)]
  note low = newDocumentChanges_checkpoint(1)
  note attained = newDocumentChanges_checkpoint(3)
  note again = newDocumentChanges_from_checkpoint
  show ?thesis
    by (intro conjI scan lookup(1) lookup(2) low bound attained again later)
qed

theorem newDocumentChanges_checkpoint_exact_witness:
  "sortedMapGet (fst (remoteDocumentCacheGetNewDocumentChanges identitySerializer
                        changesTransaction SnapshotVersion_min)) [''b'', ''2'']
     = Some (setReadTime 1 (newNoDocument [''b'', ''2''] SnapshotVersion_min))
   \<and> snd (remoteDocumentCacheGetNewDocumentChanges identitySerializer changesTransaction
            SnapshotVersion_min) = 3
   \<and> fst (remoteDocumentCacheGetNewDocumentChanges identitySerializer changesTransaction
            (snd (remoteDocumentCacheGetNewDocumentChanges identitySerializer
                    changesTransaction SnapshotVersion_min))) = []
   \<and> fst (remoteDocumentCacheGetNewDocumentChanges identitySerializer laterChangesTransaction
            (snd (remoteDocumentCacheGetNewDocumentChanges identitySerializer
                    changesTransaction SnapshotVersion_min)))
     = [([''c'', ''1''], docVersion [''c'', ''1''] 4 4)]"
proof -
  have h1: "sorted_wrt (<) (map fst (remoteDocuments changesTransaction))"
    by (simp add: changes_defs changesTransaction_def laterChangesTransaction_def)
  have h2: "keyedRows identitySerializer (remoteDocuments changesTransaction)"
    by (simp add: changes_defs changesTransaction_def laterChangesTransaction_def)
  have h3: "sorted_wrt (<) (map fst (remoteDocuments laterChangesTransaction))"
    by (simp add: changes_defs changesTransaction_def laterChangesTransaction_def)
  have h4: "keyedRows identitySerializer (remoteDocuments laterChangesTransaction)"
    by (simp add: changes_defs changesTransaction_def laterChangesTransaction_def)
  from newDocumentChanges_checkpoint_exact[OF h1 h2 h3 h4, of SnapshotVersion_min
         "[''b'', ''2'']"]
  show ?thesis
    by (simp add: changes_defs changesTransaction_def laterChangesTransaction_def)
qed

section \<open>The size counter without tombstones\<close>

text \<open>
  When the buffer does not track removals, has recorded for every staged key the size
  of its row, and the counter equals the sum of the sizes of the rows before the commit,
  it equals that sum after the commit.
\<close>

lemma sum_sortedMapInsert:
  fixes xs :: "('k::linorder \<times> 'v) list" and f :: "'v \<Rightarrow> int"
  assumes "sorted_wrt (<) (map fst xs)"
  shows "sum_list (map (\<lambda>p. f (snd p)) (sortedMapInsert k v xs)) =
           sum_list (map (\<lambda>p. f (snd p)) xs) + f v
             - (case map_of xs k of None \<Rightarrow> 0 | Some r \<Rightarrow> f r)"
  using assms
proof (induction xs)
  case Nil
  then show ?case by simp
next
  case (Cons a xs)
  obtain k' v' where a: "a = (k', v')" by (cases a)
  from Cons.prems a have s: "sorted_wrt (<) (map fst xs)" and lt: "\<forall>x \<in> set xs. k' < fst x"
    by auto
  show ?case
  proof (cases "k < k'")
    case True
    with lt have "\<forall>x \<in> set xs. fst x \<noteq> k" by fastforce
    then have "map_of xs k = None" by (force simp: map_of_eq_None_iff)
    moreover from True have "k \<noteq> k'" by simp
    ultimately show ?thesis using True a by simp
  next
    case False
    show ?thesis
    proof (cases "k = k'")
      case True
      with a show ?thesis by simp
    next
      case neq: False
      with False a Cons.IH[OF s] show ?thesis by simp
    qed
  qed
qed

lemma sum_sortedMapRemove:
  fixes xs :: "('k::linorder \<times> 'v) list" and f :: "'v \<Rightarrow> int"
  assumes "sorted_wrt (<) (map fst xs)"
  shows "sum_list (map (\<lambda>p. f (snd p)) (sortedMapRemove k xs)) =
           sum_list (map (\<lambda>p. f (snd p)) xs)
             - (case map_of xs k of None \<Rightarrow> 0 | Some r \<Rightarrow> f r)"
  using assms
proof (induction xs)
  case Nil
  then show ?case by (simp add: sortedMapRemove_def)
next
  case (Cons a xs)
  obtain k' v' where a: "a = (k', v')" by (cases a)
  from Cons.prems a have s: "sorted_wrt (<) (map fst xs)" and lt: "\<forall>x \<in> set xs. k' < fst x"
    by auto
  show ?case
  proof (cases "k = k'")
    case True
    with lt have "\<forall>x \<in> set xs. fst x \<noteq> k" by fastforce
    then have none: "map_of xs k = None" by (force simp: map_of_eq_None_iff)
    then have "filter (\<lambda>p. fst p \<noteq> k) xs = xs"
      using \<open>\<forall>x \<in> set xs. fst x \<noteq> k\<close> by (simp add: filter_id_conv)
    with True a show ?thesis by (simp add: sortedMapRemove_def)
  next
    case False
    with a Cons.IH[OF s] show ?thesis by (simp add: sortedMapRemove_def)
  qed
qed

lemma storedSize_addEntry:
  assumes "sorted_wrt (<) (map fst (remoteDocuments t))"
  shows "storedSize S (addEntry t k r) =
           storedSize S t + int (byteSize S r)
             - int (dbDocumentSize S (sortedMapGet (remoteDocuments t) k))"
  using sum_sortedMapInsert[OF assms, of "\<lambda>r. int (byteSize S r)" k r]
  by (simp add: storedSize_def addEntry_def dbDocumentSize_def sortedMapGet_def
        split: option.splits)

lemma storedSize_removeEntry:
  assumes "sorted_wrt (<) (map fst (remoteDocuments t))"
  shows "storedSize S (removeEntry t k) =
           storedSize S t - int (dbDocumentSize S (sortedMapGet (remoteDocuments t) k))"
  using sum_sortedMapRemove[OF assms, of "\<lambda>r. int (byteSize S r)" k]
  by (simp add: storedSize_def removeEntry_def dbDocumentSize_def sortedMapGet_def
        split: option.splits)

lemma forEach_size_delta:
  assumes "applyChanges_forEach cs S buf chs (sd, cp, t) = Inr (sd', cp', t')"
    and "sorted_wrt (<) (map fst (remoteDocuments t))"
    and "distinct (map fst chs)"
    and "\<forall>k \<in> fst ` set chs.
           documentSizes buf k = Some (dbDocumentSize S (sortedMapGet (remoteDocuments t) k))"
    and "\<not> trackRemovals buf"
  shows "storedSize S t' - storedSize S t = sd' - sd
       \<and> sorted_wrt (<) (map fst (remoteDocuments t'))"
  using assms(1-4)
proof (induction chs arbitrary: sd cp t)
  case Nil
  then show ?case by simp
next
  case (Cons a chs)
  obtain k0 d0 where a: "a = (k0, d0)" by (cases a)
  from Cons.prems(3) a have notin: "k0 \<notin> fst ` set chs" and dist: "distinct (map fst chs)"
    by auto
  from Cons.prems(4) a have
    prev: "documentSizes buf k0 = Some (dbDocumentSize S (sortedMapGet (remoteDocuments t) k0))"
    by simp
  show ?case
  proof (cases "isValidDocument d0")
    case True
    let ?t1 = "addEntry t k0 (toDbRemoteDocument S d0)"
    from Cons.prems(1) a True prev obtain cp1 where
      step: "applyChanges_forEach cs S buf chs
               (sd + (int (byteSize S (toDbRemoteDocument S d0))
                      - int (dbDocumentSize S (sortedMapGet (remoteDocuments t) k0))),
                cp1, ?t1) = Inr (sd', cp', t')"
      by (auto simp: Let_def dbDocumentSize_def split: if_splits)
    have s1: "sorted_wrt (<) (map fst (remoteDocuments ?t1))"
      using Cons.prems(2) by (simp add: addEntry_def sorted_sortedMapInsert)
    have sizes1: "\<forall>k \<in> fst ` set chs.
           documentSizes buf k = Some (dbDocumentSize S (sortedMapGet (remoteDocuments ?t1) k))"
    proof
      fix k assume k: "k \<in> fst ` set chs"
      with notin have "k \<noteq> k0" by auto
      with Cons.prems(4) k show
        "documentSizes buf k = Some (dbDocumentSize S (sortedMapGet (remoteDocuments ?t1) k))"
        by (auto simp: sortedMapGet_addEntry)
    qed
    from Cons.IH[OF step s1 dist sizes1] storedSize_addEntry[OF Cons.prems(2), of S k0]
    show ?thesis by simp
  next
    case False
    let ?t1 = "removeEntry t k0"
    from Cons.prems(1) a False prev assms(5) have
      step: "applyChanges_forEach cs S buf chs
               (sd - int (dbDocumentSize S (sortedMapGet (remoteDocuments t) k0)), cp, ?t1)
             = Inr (sd', cp', t')"
      by (auto simp: Let_def)
    have s1: "sorted_wrt (<) (map fst (remoteDocuments ?t1))"
      using Cons.prems(2) by (simp add: removeEntry_def sortedMapRemove_def sorted_keys_filter)
    have sizes1: "\<forall>k \<in> fst ` set chs.
           documentSizes buf k = Some (dbDocumentSize S (sortedMapGet (remoteDocuments ?t1) k))"
    proof
      fix k assume k: "k \<in> fst ` set chs"
      with notin have "k \<noteq> k0" by auto
      with Cons.prems(4) k show
        "documentSizes buf k = Some (dbDocumentSize S (sortedMapGet (remoteDocuments ?t1) k))"
        by (auto simp: sortedMapGet_removeEntry)
    qed
    from Cons.IH[OF step s1 dist sizes1] storedSize_removeEntry[OF Cons.prems(2), of S k0]
    show ?thesis by simp
  qed
qed

lemma forEach_metadata:
  "applyChanges_forEach cs S buf chs (sd, cp, t) = Inr (sd', cp', t')
     \<Longrightarrow> remoteDocumentGlobal t' = remoteDocumentGlobal t"
proof (induction chs arbitrary: sd cp t)
  case Nil
  then show ?case by simp
next
  case (Cons a chs)
  obtain k0 d0 where a: "a = (k0, d0)" by (cases a)
  from Cons.prems a obtain sd1 cp1 t1 where
    step: "applyChanges_forEach cs S buf chs (sd1, cp1, t1) = Inr (sd', cp', t')"
    and t1: "remoteDocumentGlobal t1 = remoteDocumentGlobal t"
    by (auto simp: Let_def addEntry_def removeEntry_def split: option.splits if_splits)
  from Cons.IH[OF step] t1 show ?case by simp
qed

lemma fold_parents_metadata:
  "remoteDocumentGlobal (fold (\<lambda>parent t. addToCollectionParentIndex t parent) ps t)
     = remoteDocumentGlobal t"
  by (induction ps arbitrary: t) (auto simp: addToCollectionParentIndex_def)

lemma size_counter_exact_without_tombstones:
  assumes "applyChanges cs S transaction buf = Inr txn'"
    and "sorted_wrt (<) (map fst (remoteDocuments transaction))"
    and "remoteDocumentGlobal transaction = Some (storedSize S transaction)"
    and "distinct (map fst (changes buf))"
    and "\<forall>k \<in> fst ` set (changes buf).
           documentSizes buf k
             = Some (dbDocumentSize S (sortedMapGet (remoteDocuments transaction) k))"
    and "\<not> trackRemovals buf"
  shows "remoteDocumentGlobal txn' = Some (storedSize S txn')
       \<and> sorted_wrt (<) (map fst (remoteDocuments txn'))"
proof -
  from assms(1) obtain sd cp t1 where
    fe: "applyChanges_forEach cs S buf (changes buf) (0, [], transaction) = Inr (sd, cp, t1)"
    and um: "updateMetadata (fold (\<lambda>parent t. addToCollectionParentIndex t parent) cp t1) sd
               = Inr txn'"
    by (auto simp: applyChanges_def split: sum.splits)
  from forEach_size_delta[OF fe assms(2,4,5,6)] have
    delta: "storedSize S t1 - storedSize S transaction = sd"
    and s1: "sorted_wrt (<) (map fst (remoteDocuments t1))" by simp_all
  have rows: "remoteDocuments txn' = remoteDocuments t1"
    using updateMetadata_docs[OF um] by (simp add: fold_parents_docs)
  have "remoteDocumentGlobal txn' = Some (storedSize S transaction + sd)"
    using um forEach_metadata[OF fe] assms(3)
    by (auto simp: updateMetadata_def getMetadata_def setMetadata_def fold_parents_metadata
          split: option.splits)
  with delta rows s1 show ?thesis by (simp add: storedSize_def)
qed

section \<open>The last read time\<close>

text \<open>
  \<open>remoteDocumentCacheGetLastReadTime\<close> returns the greatest stored read time, so an
  enumeration of changes that starts there finds nothing.
\<close>

lemma lastReadTime_eq:
  "remoteDocumentCacheGetLastReadTime transaction =
     (if readTimeIndex (remoteDocuments transaction) = [] then SnapshotVersion_min
      else fst (last (readTimeIndex (remoteDocuments transaction))))"
proof (cases "readTimeIndex (remoteDocuments transaction) = []")
  case True
  then show ?thesis by (simp add: remoteDocumentCacheGetLastReadTime_def)
next
  case False
  then obtain ys y where ys: "readTimeIndex (remoteDocuments transaction) = ys @ [y]"
    by (metis append_butlast_last_id)
  obtain t k r where y: "y = (t, k, r)" by (cases y)
  from ys y show ?thesis by (simp add: remoteDocumentCacheGetLastReadTime_def)
qed

lemma no_changes_since_last_read_time:
  "fst (remoteDocumentCacheGetNewDocumentChanges S transaction
          (remoteDocumentCacheGetLastReadTime transaction)) = []"
proof -
  define E where "E = readTimeIndex (remoteDocuments transaction)"
  have "filter (\<lambda>e. remoteDocumentCacheGetLastReadTime transaction < fst e) E = []"
  proof (cases "E = []")
    case True
    then show ?thesis by simp
  next
    case False
    have "fst e \<le> fst (last E)" if "e \<in> set E" for e
      using sorted_last_max[OF readTimeIndex_sorted[of "remoteDocuments transaction"], of e] that
      by (simp add: E_def)
    then have "\<forall>e \<in> set E. \<not> fst (last E) < fst e" by (auto simp: not_less)
    with False show ?thesis
      by (simp add: lastReadTime_eq E_def[symmetric] filter_empty_conv)
  qed
  then show ?thesis
    by (simp add: remoteDocumentCacheGetNewDocumentChanges_def E_def)
qed

section \<open>Reading back what was added\<close>




lemma objectMapSet_member:
  "(k, v) \<in> set (objectMapSet k v xs)"
  by (induction xs) auto

lemma bufferAddEntry_staged:
  "(key d, d) \<in> set (changes (bufferAddEntry buf d))"
  "distinct (map fst (changes buf)) \<Longrightarrow> distinct (map fst (changes (bufferAddEntry buf d)))"
  by (simp_all add: bufferAddEntry_def objectMapSet_member distinct_objectMapSet)












end
